theory Spec2Isabelle
  imports Main
begin

section \<open>The host: a document tree and its live range\<close>

text \<open>
  The range service runs against the browser's document and selection interfaces.  The
  host is modelled as a tree of text and element nodes.  A node is referred to by its
  path from the root of its tree (the child indices, outermost first), so two references
  denote the identical node exactly when their paths are equal.  An element carries its
  tag name, the properties a decorator has set on it, and its children.  The operations of
  the host follow the algorithms of the DOM standard for the calls the service makes.
  Documents with comments, processing instructions or a doctype are outside the model.
\<close>

type_synonym path = "nat list"

type_synonym props = "(string \<times> string) list"

datatype node = Text string | Element string props "node list"

text \<open>The exceptions of the host interfaces.  \<open>NoSuchNode\<close> marks a path that denotes no
  node: a script reference cannot dangle, a path can, and the states in which one does
  are excluded by \<open>valid_range\<close> below.\<close>

datatype error =
  IndexSizeError | HierarchyRequestError | InvalidCharacterError | TypeError | NoSuchNode

text \<open>An operation completes, or raises with the state it leaves behind.\<close>

datatype 's outcome = Normal 's | Raised error 's

text \<open>One call after another: a raise ends the sequence.\<close>

definition and_then :: "'s outcome \<Rightarrow> ('s \<Rightarrow> 's outcome) \<Rightarrow> 's outcome" where
  "and_then x f = (case x of Normal s \<Rightarrow> f s | Raised e s \<Rightarrow> Raised e s)"

fun children :: "node \<Rightarrow> node list" where
  "children (Text d) = []"
| "children (Element t a cs) = cs"

fun set_children :: "node list \<Rightarrow> node \<Rightarrow> node" where
  "set_children cs (Text d) = Text d"
| "set_children cs (Element t a _) = Element t a cs"

fun is_Text :: "node \<Rightarrow> bool" where
  "is_Text (Text d) = True"
| "is_Text (Element t a cs) = False"

text \<open>\<open>Node.textContent\<close>: the data of a text node, the concatenated text of the
  descendants of an element.\<close>

fun textContent :: "node \<Rightarrow> string" where
  "textContent (Text d) = d"
| "textContent (Element t a cs) = concat (map textContent cs)"

text \<open>The length of a node as the range interface counts it: characters of a text node,
  children of an element.\<close>

fun node_length :: "node \<Rightarrow> nat" where
  "node_length (Text d) = length d"
| "node_length (Element t a cs) = length cs"

text \<open>The script-visible property \<open>length\<close>: character data has one, an element has
  none (reading it gives \<open>undefined\<close>).\<close>

fun length_prop :: "node \<Rightarrow> nat option" where
  "length_prop (Text d) = Some (length d)"
| "length_prop (Element t a cs) = None"

fun count_elements :: "node \<Rightarrow> nat" where
  "count_elements (Text d) = 0"
| "count_elements (Element t a cs) = Suc (sum_list (map count_elements cs))"

fun node_at :: "node \<Rightarrow> path \<Rightarrow> node option" where
  "node_at n [] = Some n"
| "node_at (Text d) (i # p) = None"
| "node_at (Element t a cs) (i # p) = (if i < length cs then node_at (cs ! i) p else None)"

fun modify_at :: "path \<Rightarrow> (node \<Rightarrow> node) \<Rightarrow> node \<Rightarrow> node" where
  "modify_at [] f n = f n"
| "modify_at (i # p) f (Text d) = Text d"
| "modify_at (i # p) f (Element t a cs) =
     Element t a (if i < length cs then cs[i := modify_at p f (cs ! i)] else cs)"

subsection \<open>Boundary points and ranges\<close>

record Range =
  startContainer :: path
  startOffset :: nat
  endContainer :: path
  endOffset :: nat

text \<open>The position of boundary point \<open>(pa, oa)\<close> relative to \<open>(pb, ob)\<close> is \<^emph>\<open>after\<close>.
  In the same node the offsets decide; when one node is an ancestor of the other, the index
  of the ancestor's child on the way down is compared with the ancestor's offset; otherwise
  tree order decides.\<close>

fun bp_after :: "path \<Rightarrow> nat \<Rightarrow> path \<Rightarrow> nat \<Rightarrow> bool" where
  "bp_after [] oa [] ob = (ob < oa)"
| "bp_after [] oa (j # pb) ob = (j < oa)"
| "bp_after (i # pa) oa [] ob = (\<not> i < ob)"
| "bp_after (i # pa) oa (j # pb) ob = (if i = j then bp_after pa oa pb ob else j < i)"

definition valid_bp :: "node \<Rightarrow> path \<Rightarrow> nat \<Rightarrow> bool" where
  "valid_bp d p off = (case node_at d p of None \<Rightarrow> False | Some n \<Rightarrow> off \<le> node_length n)"

definition valid_range :: "node \<Rightarrow> Range \<Rightarrow> bool" where
  "valid_range d r =
     (valid_bp d (startContainer r) (startOffset r) \<and>
      valid_bp d (endContainer r) (endOffset r) \<and>
      \<not> bp_after (startContainer r) (startOffset r) (endContainer r) (endOffset r))"

text \<open>\<open>Range.setStart\<close> and \<open>Range.setEnd\<close>: an offset beyond the node's length is an
  \<open>IndexSizeError\<close>; a start set after the end drags the end along, and an end set before
  the start drags the start along.\<close>

definition setStart :: "node \<Rightarrow> Range \<Rightarrow> path \<Rightarrow> nat \<Rightarrow> error + Range" where
  "setStart d r p off =
     (case node_at d p of
        None \<Rightarrow> Inl NoSuchNode
      | Some n \<Rightarrow>
          if node_length n < off then Inl IndexSizeError
          else if bp_after p off (endContainer r) (endOffset r)
          then Inr \<lparr>startContainer = p, startOffset = off, endContainer = p, endOffset = off\<rparr>
          else Inr (r\<lparr>startContainer := p, startOffset := off\<rparr>))"

definition setEnd :: "node \<Rightarrow> Range \<Rightarrow> path \<Rightarrow> nat \<Rightarrow> error + Range" where
  "setEnd d r p off =
     (case node_at d p of
        None \<Rightarrow> Inl NoSuchNode
      | Some n \<Rightarrow>
          if node_length n < off then Inl IndexSizeError
          else if bp_after (startContainer r) (startOffset r) p off
          then Inr \<lparr>startContainer = p, startOffset = off, endContainer = p, endOffset = off\<rparr>
          else Inr (r\<lparr>endContainer := p, endOffset := off\<rparr>))"

section \<open>The Selection object\<close>

text \<open>A wrapper element is referred to either while it is still outside the tree (the
  element itself is kept) or by its path once it has been inserted.\<close>

datatype href = Detached node | InTree path

text \<open>The state a Selection's methods close over: the window's document, the range the
  Selection was built around (\<open>selection.range\<close>), and \<open>selection._highlighter\<close>, where
  \<open>None\<close> is \<open>undefined\<close>.\<close>

record selection =
  document :: node
  range_s :: Range
  highlighter :: "href option"

definition Selection :: "node \<Rightarrow> Range \<Rightarrow> selection" where
  "Selection d r = \<lparr>document = d, range_s = r, highlighter = None\<rparr>"

definition isHighlighted :: "selection \<Rightarrow> bool" where
  "isHighlighted s = (highlighter s \<noteq> None)"

subsection \<open>snapToWord\<close>

text \<open>\<open>String.charAt\<close>: the one-character string at the index, the empty string outside
  the string.\<close>

definition charAt :: "string \<Rightarrow> nat \<Rightarrow> string" where
  "charAt t i = (if i < length t then [t ! i] else [])"

text \<open>\<open>end < endNode.length\<close>: a comparison with \<open>undefined\<close> is false.\<close>

definition js_less :: "nat \<Rightarrow> nat option \<Rightarrow> bool" where
  "js_less n m = (case m of None \<Rightarrow> False | Some k \<Rightarrow> n < k)"

text \<open>The first loop: \<open>while (text.charAt(start) != ' ' && start > 0) start--\<close>.\<close>

fun walk_back :: "string \<Rightarrow> nat \<Rightarrow> nat" where
  "walk_back t start =
     (if charAt t start \<noteq> '' '' \<and> 0 < start then walk_back t (start - 1) else start)"

declare walk_back.simps [simp del]

text \<open>The second loop: \<open>while (text.charAt(end) != ' ' && end < endNode.length) end++\<close>.\<close>

function walk_forward :: "string \<Rightarrow> nat option \<Rightarrow> nat \<Rightarrow> nat" where
  "walk_forward t len e =
     (if charAt t e \<noteq> '' '' \<and> js_less e len then walk_forward t len (e + 1) else e)"
  by pat_completeness auto
termination
  by (relation "measure (\<lambda>(t, len, e). (case len of None \<Rightarrow> 0 | Some n \<Rightarrow> n) - e)")
     (auto simp: js_less_def split: option.splits)

declare walk_forward.simps [simp del]

definition snapToWord :: "selection \<Rightarrow> selection outcome" where
  "snapToWord s =
     (let r = range_s s in
      case node_at (document s) (startContainer r) of
        None \<Rightarrow> Raised NoSuchNode s
      | Some startNode \<Rightarrow>
          let start0 = walk_back (textContent startNode) (startOffset r);
              start = (if start0 \<noteq> 0 \<and> start0 \<noteq> startOffset r then start0 + 1 else start0)
          in
          (case node_at (document s) (endContainer r) of
             None \<Rightarrow> Raised NoSuchNode s
           | Some endNode \<Rightarrow>
               let fin = walk_forward (textContent endNode) (length_prop endNode) (endOffset r)
               in
               (case setStart (document s) r (startContainer r) start of
                  Inl e \<Rightarrow> Raised e s
                | Inr r1 \<Rightarrow>
                    (case setEnd (document s) r1 (endContainer r) fin of
                       Inl e \<Rightarrow> Raised e (s\<lparr>range_s := r1\<rparr>)
                     | Inr r2 \<Rightarrow> Normal (s\<lparr>range_s := r2\<rparr>)))))"

subsection \<open>Tree edits and the live range\<close>

text \<open>Removing a child of the node at \<open>q\<close>, and inserting a node among its children.\<close>

definition remove_child :: "path \<Rightarrow> nat \<Rightarrow> node \<Rightarrow> node" where
  "remove_child q i d =
     modify_at q (\<lambda>n. set_children (take i (children n) @ drop (Suc i) (children n)) n) d"

definition insert_child :: "path \<Rightarrow> nat \<Rightarrow> node \<Rightarrow> node \<Rightarrow> node" where
  "insert_child q i c d =
     modify_at q (\<lambda>n. set_children (take i (children n) @ c # drop i (children n)) n) d"

fun strip_prefix :: "path \<Rightarrow> path \<Rightarrow> path option" where
  "strip_prefix [] p = Some p"
| "strip_prefix (x # q) [] = None"
| "strip_prefix (x # q) (y # p) = (if x = y then strip_prefix q p else None)"

text \<open>What the host does to a boundary point of a live range when child \<open>i\<close> of the node
  at \<open>q\<close> is removed: a point inside the removed child moves to \<open>(q, i)\<close>, a point of \<open>q\<close>
  behind the child moves one to the left, and the paths through later children are
  renumbered.\<close>

definition bp_remove :: "path \<Rightarrow> nat \<Rightarrow> path \<times> nat \<Rightarrow> path \<times> nat" where
  "bp_remove q i bp =
     (case strip_prefix q (fst bp) of
        None \<Rightarrow> bp
      | Some [] \<Rightarrow> (fst bp, if i < snd bp then snd bp - 1 else snd bp)
      | Some (j # rest) \<Rightarrow>
          if j = i then (q, i)
          else if i < j then (q @ (j - 1) # rest, snd bp)
          else bp)"

text \<open>And when a node is inserted as child \<open>i\<close> of the node at \<open>q\<close>: a point of \<open>q\<close> behind
  the new child moves one to the right, and the paths through the children from \<open>i\<close> on
  are renumbered.\<close>

definition bp_insert :: "path \<Rightarrow> nat \<Rightarrow> path \<times> nat \<Rightarrow> path \<times> nat" where
  "bp_insert q i bp =
     (case strip_prefix q (fst bp) of
        None \<Rightarrow> bp
      | Some [] \<Rightarrow> (fst bp, if i < snd bp then snd bp + 1 else snd bp)
      | Some (j # rest) \<Rightarrow> if i \<le> j then (q @ Suc j # rest, snd bp) else bp)"

definition range_map :: "(path \<times> nat \<Rightarrow> path \<times> nat) \<Rightarrow> Range \<Rightarrow> Range" where
  "range_map f r =
     \<lparr>startContainer = fst (f (startContainer r, startOffset r)),
      startOffset = snd (f (startContainer r, startOffset r)),
      endContainer = fst (f (endContainer r, endOffset r)),
      endOffset = snd (f (endContainer r, endOffset r))\<rparr>"

subsection \<open>Range.toString\<close>

text \<open>The text of a subtree behind, respectively before, a boundary point inside it.\<close>

fun text_after :: "node \<Rightarrow> path \<Rightarrow> nat \<Rightarrow> string" where
  "text_after (Text d) [] off = drop off d"
| "text_after (Element t a cs) [] off = concat (map textContent (drop off cs))"
| "text_after (Text d) (i # p) off = []"
| "text_after (Element t a cs) (i # p) off =
     (if i < length cs then text_after (cs ! i) p off else []) @
     concat (map textContent (drop (Suc i) cs))"

fun text_before :: "node \<Rightarrow> path \<Rightarrow> nat \<Rightarrow> string" where
  "text_before (Text d) [] off = take off d"
| "text_before (Element t a cs) [] off = concat (map textContent (take off cs))"
| "text_before (Text d) (i # p) off = []"
| "text_before (Element t a cs) (i # p) off =
     concat (map textContent (take i cs)) @
     (if i < length cs then text_before (cs ! i) p off else [])"

text \<open>The text between two boundary points: within one text node the substring between
  the offsets; otherwise the rest of a starting text node, the text nodes wholly between
  the two points in tree order, and the beginning of an ending text node.\<close>

fun range_text :: "node \<Rightarrow> path \<Rightarrow> nat \<Rightarrow> path \<Rightarrow> nat \<Rightarrow> string" where
  "range_text (Text d) [] so [] eo = take (eo - so) (drop so d)"
| "range_text (Element t a cs) [] so [] eo =
     concat (map textContent (take (eo - so) (drop so cs)))"
| "range_text (Element t a cs) [] so (j # q) eo =
     concat (map textContent (take (j - so) (drop so cs))) @
     (if j < length cs then text_before (cs ! j) q eo else [])"
| "range_text (Element t a cs) (i # p) so [] eo =
     (if i < length cs then text_after (cs ! i) p so else []) @
     concat (map textContent (take (eo - Suc i) (drop (Suc i) cs)))"
| "range_text (Element t a cs) (i # p) so (j # q) eo =
     (if i = j then (if i < length cs then range_text (cs ! i) p so q eo else [])
      else (if i < length cs then text_after (cs ! i) p so else []) @
           concat (map textContent (take (j - Suc i) (drop (Suc i) cs))) @
           (if j < length cs then text_before (cs ! j) q eo else []))"
| "range_text (Text d) (i # p) so q eo = []"
| "range_text (Text d) [] so (j # q) eo = []"

definition toString :: "node \<Rightarrow> Range \<Rightarrow> string" where
  "toString d r = range_text d (startContainer r) (startOffset r) (endContainer r) (endOffset r)"

definition getText :: "selection \<Rightarrow> string" where
  "getText s = toString (document s) (range_s s)"

subsection \<open>Creating and decorating the wrapper element\<close>

text \<open>\<open>document.createElement\<close> rejects a tag that is not a name with an
  \<open>InvalidCharacterError\<close>.  The names accepted here are the ASCII ones every version of
  the rule accepts: a letter, \<open>:\<close> or \<open>_\<close>, followed by letters, digits, \<open>-\<close>, \<open>.\<close>, \<open>:\<close> and
  \<open>_\<close>.  The new element has no parent, no children and no properties set, and keeps the
  tag as it was given.\<close>

definition name_start_char :: "char \<Rightarrow> bool" where
  "name_start_char c =
     (c \<in> set ''abcdefghijklmnopqrstuvwxyzABCDEFGHIJKLMNOPQRSTUVWXYZ:_'')"

definition name_char :: "char \<Rightarrow> bool" where
  "name_char c = (name_start_char c \<or> c \<in> set ''0123456789-.'')"

fun valid_element_name :: "string \<Rightarrow> bool" where
  "valid_element_name [] = False"
| "valid_element_name (c # cs) = (name_start_char c \<and> list_all name_char cs)"

definition createElement :: "string \<Rightarrow> error + node" where
  "createElement tag =
     (if valid_element_name tag then Inr (Element tag [] []) else Inl InvalidCharacterError)"

text \<open>A decorator is a callback that sets properties of the element it is handed
  (styles, classes, attributes).  Callbacks that raise, or that reach for the document
  or the range, are outside the model.\<close>

type_synonym decorator = "props \<Rightarrow> props"

fun decorate :: "decorator \<Rightarrow> node \<Rightarrow> node" where
  "decorate f (Text d) = Text d"
| "decorate f (Element t a cs) = Element t (f a) cs"

definition set_prop :: "string \<Rightarrow> string \<Rightarrow> props \<Rightarrow> props" where
  "set_prop k v a = (k, v) # filter (\<lambda>kv. fst kv \<noteq> k) a"

subsection \<open>Range.surroundContents\<close>

text \<open>\<open>range.surroundContents(newParent)\<close> for a range whose two boundary points lie in
  the one node at \<open>c\<close>, which is how \<open>highlight\<close> calls it.  The contents of the range are
  extracted, the children of \<open>newParent\<close> are dropped, \<open>newParent\<close> is inserted at the
  start of the range, the extracted contents are appended to it, and the range is set to
  select \<open>newParent\<close>.

  In a text node the extraction cuts the selected characters out; the insertion then splits
  the node at the cut and places \<open>newParent\<close> between the two halves, and it fails with a
  \<open>HierarchyRequestError\<close> when the text node has no parent, after the characters have
  been cut out.  In an element the selected children move into \<open>newParent\<close>, which takes
  their place.\<close>

datatype surround_result = Surrounded node Range path | SurroundFailed error node Range

text \<open>What the extraction takes out of a text node: nothing from a collapsed range,
  otherwise a new text node with the characters between the offsets.\<close>

definition extracted_text :: "string \<Rightarrow> nat \<Rightarrow> nat \<Rightarrow> node list" where
  "extracted_text dat so eo = (if so = eo then [] else [Text (take (eo - so) (drop so dat))])"

definition collapsed :: "path \<Rightarrow> nat \<Rightarrow> Range" where
  "collapsed c off =
     \<lparr>startContainer = c, startOffset = off, endContainer = c, endOffset = off\<rparr>"

definition select_node :: "path \<Rightarrow> nat \<Rightarrow> Range" where
  "select_node q k =
     \<lparr>startContainer = q, startOffset = k, endContainer = q, endOffset = Suc k\<rparr>"

definition surroundContents :: "node \<Rightarrow> node \<Rightarrow> path \<Rightarrow> nat \<Rightarrow> nat \<Rightarrow> surround_result" where
  "surroundContents newParent d c so eo =
     (case node_at d c of
        None \<Rightarrow> SurroundFailed NoSuchNode d (collapsed c so)
      | Some (Text dat) \<Rightarrow>
          if c = [] then
            SurroundFailed HierarchyRequestError (Text (take so dat @ drop eo dat)) (collapsed c so)
          else
            let q = butlast c; k = last c;
                wrapper = set_children (extracted_text dat so eo) newParent
            in Surrounded
                 (modify_at q
                    (\<lambda>n. set_children
                       (take k (children n) @
                        [Text (take so dat), wrapper, Text (drop eo dat)] @
                        drop (Suc k) (children n)) n) d)
                 (select_node q (Suc k)) (q @ [Suc k])
      | Some (Element t a cs) \<Rightarrow>
          let wrapper = set_children (take (eo - so) (drop so cs)) newParent
          in Surrounded
               (modify_at c (\<lambda>n. Element t a (take so cs @ wrapper # drop eo cs)) d)
               (select_node c so) (c @ [so]))"

subsection \<open>removeHighlight\<close>

text \<open>One round of the loop, \<open>parent.insertBefore(h.firstChild, h)\<close>, for the wrapper \<open>h\<close> at
  \<open>q @ [k]\<close>: the first child leaves the wrapper and becomes child \<open>k\<close> of the parent, and
  the wrapper moves on to index \<open>k + 1\<close>.\<close>

definition firstChild :: "node \<Rightarrow> path \<Rightarrow> node option" where
  "firstChild d p =
     (case node_at d p of
        None \<Rightarrow> None
      | Some n \<Rightarrow> (case children n of [] \<Rightarrow> None | c # cs \<Rightarrow> Some c))"

definition move_out :: "path \<Rightarrow> nat \<Rightarrow> node \<Rightarrow> node \<times> Range \<Rightarrow> node \<times> Range" where
  "move_out q k c dr =
     (let d1 = remove_child (q @ [k]) 0 (fst dr);
          r1 = range_map (bp_remove (q @ [k]) 0) (snd dr)
      in (insert_child q k c d1, range_map (bp_insert q k) r1))"

text \<open>Paths compose, and an edit at a path is seen at that path.\<close>

lemma node_at_append:
  "node_at d (p @ p') = (case node_at d p of None \<Rightarrow> None | Some n \<Rightarrow> node_at n p')"
  by (induction d p rule: node_at.induct) simp_all

lemma node_at_snoc:
  "node_at d (q @ [k]) = Some n \<longleftrightarrow>
     (\<exists>t a cs. node_at d q = Some (Element t a cs) \<and> k < length cs \<and> cs ! k = n)"
proof -
  have "node_at m [k] = Some n \<longleftrightarrow> (\<exists>t a cs. m = Element t a cs \<and> k < length cs \<and> cs ! k = n)"
    for m
    by (cases m) auto
  then show ?thesis by (auto simp: node_at_append split: option.splits)
qed

lemma modify_at_append: "modify_at (p @ p') f d = modify_at p (modify_at p' f) d"
  by (induction p f d rule: modify_at.induct) simp_all

lemma node_at_modify_at:
  "node_at d p = Some n \<Longrightarrow> node_at (modify_at p f d) (p @ p') = node_at (f n) p'"
  by (induction d p rule: node_at.induct) (simp_all split: if_splits)

lemma node_at_modify_at_same:
  "node_at d p = Some n \<Longrightarrow> node_at (modify_at p f d) p = Some (f n)"
  using node_at_modify_at [of d p n f "[]"] by simp

lemma modify_at_twice: "modify_at p f (modify_at p g d) = modify_at p (\<lambda>n. f (g n)) d"
  by (induction p g d rule: modify_at.induct) simp_all

lemma modify_at_cong_node:
  "node_at d p = Some n \<Longrightarrow> f n = g n \<Longrightarrow> modify_at p f d = modify_at p g d"
  by (induction d p rule: node_at.induct) (simp_all split: if_splits)

lemma strip_prefix_append [simp]: "strip_prefix q (q @ p) = Some p"
  by (induction q) simp_all

lemma strip_prefix_self [simp]: "strip_prefix q q = Some []"
  using strip_prefix_append [of q "[]"] by simp

lemma strip_prefix_longer [simp]: "strip_prefix (q @ x # xs) q = None"
  by (induction q) simp_all

lemma move_out_document:
  assumes "node_at d q = Some (Element t a (pre @ Element t' a' (c # hs) # post))"
  shows "fst (move_out q (length pre) c (d, r)) =
           modify_at q (\<lambda>_. Element t a ((pre @ [c]) @ Element t' a' hs # post)) d"
proof -
  let ?P = "Element t a (pre @ Element t' a' (c # hs) # post)"
  let ?rm = "\<lambda>n. set_children (take 0 (children n) @ drop (Suc 0) (children n)) n"
  let ?ins = "\<lambda>n. set_children
     (take (length pre) (children n) @ c # drop (length pre) (children n)) n"
  have "fst (move_out q (length pre) c (d, r)) =
      modify_at q (\<lambda>n. ?ins (modify_at [length pre] ?rm n)) d"
    by (simp add: move_out_def remove_child_def insert_child_def modify_at_append modify_at_twice)
  also have "\<dots> = modify_at q (\<lambda>_. Element t a ((pre @ [c]) @ Element t' a' hs # post)) d"
    by (rule modify_at_cong_node [OF assms]) simp
  finally show ?thesis .
qed

lemma move_out_parent:
  assumes "node_at d q = Some (Element t a (pre @ Element t' a' (c # hs) # post))"
  shows "node_at (fst (move_out q (length pre) c (d, r))) q =
           Some (Element t a ((pre @ [c]) @ Element t' a' hs # post))"
  by (simp add: move_out_document [OF assms] node_at_modify_at_same [OF assms])

lemma firstChild_Some:
  "firstChild d (q @ [k]) = Some c \<longleftrightarrow>
     (\<exists>t a pre t' a' hs post.
        node_at d q = Some (Element t a (pre @ Element t' a' (c # hs) # post)) \<and> k = length pre)"
  (is "?l \<longleftrightarrow> ?r")
proof
  assume ?l
  then obtain n where n: "node_at d (q @ [k]) = Some n" and ch: "hd (children n) = c" "children n \<noteq> []"
    by (auto simp: firstChild_def split: option.splits list.splits)
  from n obtain t a cs where P: "node_at d q = Some (Element t a cs)" "k < length cs" "cs ! k = n"
    by (auto simp: node_at_snoc)
  from ch obtain t' a' hs where "n = Element t' a' (c # hs)"
    by (cases n) (auto simp: neq_Nil_conv)
  with P have "cs = take k cs @ Element t' a' (c # hs) # drop (Suc k) cs"
    using id_take_nth_drop [of k cs] by simp
  with P show ?r
    by (metis length_take min.absorb2 less_imp_le_nat)
next
  assume ?r
  then show ?l by (auto simp: firstChild_def node_at_append)
qed

text \<open>The loop \<open>while (h.firstChild) parent.insertBefore(h.firstChild, h)\<close>: it ends
  because every round takes one child out of the wrapper.  It returns the wrapper's final
  index with the document and the range.\<close>

function unwrap :: "path \<Rightarrow> nat \<Rightarrow> node \<times> Range \<Rightarrow> nat \<times> node \<times> Range" where
  "unwrap q k dr =
     (case firstChild (fst dr) (q @ [k]) of
        None \<Rightarrow> (k, dr)
      | Some c \<Rightarrow> unwrap q (Suc k) (move_out q k c dr))"
  by pat_completeness auto
termination
proof (relation "measure (\<lambda>(q, k, dr).
    case node_at (fst dr) (q @ [k]) of None \<Rightarrow> 0 | Some n \<Rightarrow> length (children n))")
  show "wf (measure (\<lambda>(q, k, dr).
    case node_at (fst dr) (q @ [k]) of None \<Rightarrow> 0 | Some n \<Rightarrow> length (children n)))"
    by simp
next
  fix q k and dr :: "node \<times> Range" and c
  assume "firstChild (fst dr) (q @ [k]) = Some c"
  then obtain t a pre t' a' hs post
    where P: "node_at (fst dr) q = Some (Element t a (pre @ Element t' a' (c # hs) # post))"
      and k: "k = length pre"
    by (auto simp: firstChild_Some)
  have "node_at (fst (move_out q k c dr)) q = Some (Element t a ((pre @ [c]) @ Element t' a' hs # post))"
    using move_out_parent [OF P, of "snd dr"] k by simp
  then have "node_at (fst (move_out q k c dr)) (q @ [Suc k]) = Some (Element t' a' hs)"
    using k by (simp add: node_at_append nth_append)
  moreover have "node_at (fst dr) (q @ [k]) = Some (Element t' a' (c # hs))"
    using P k by (simp add: node_at_append nth_append)
  ultimately show "((q, Suc k, move_out q k c dr), (q, k, dr)) \<in> measure (\<lambda>(q, k, dr).
    case node_at (fst dr) (q @ [k]) of None \<Rightarrow> 0 | Some n \<Rightarrow> length (children n))"
    by simp
qed

declare unwrap.simps [simp del]

text \<open>A wrapper that is not in the tree has no parent, and neither has the root of the
  tree: \<open>parent\<close> is \<open>null\<close>, and the first use of it is a \<open>TypeError\<close>.\<close>

definition removeHighlight :: "selection \<Rightarrow> selection outcome" where
  "removeHighlight s =
     (case highlighter s of
        None \<Rightarrow> Normal s
      | Some (Detached el) \<Rightarrow> Raised TypeError s
      | Some (InTree p) \<Rightarrow>
          if p = [] then Raised TypeError s
          else
            (case node_at (document s) p of
               None \<Rightarrow> Raised NoSuchNode s
             | Some h \<Rightarrow>
                 let q = butlast p;
                     (k, d, r) = unwrap q (last p) (document s, range_s s)
                 in Normal (s\<lparr>document := remove_child q k d,
                              range_s := range_map (bp_remove q k) r,
                              highlighter := None\<rparr>)))"

subsection \<open>highlight\<close>

definition highlight :: "string \<Rightarrow> decorator \<Rightarrow> selection \<Rightarrow> selection outcome" where
  "highlight tag decorator s =
     (case (if highlighter s \<noteq> None then removeHighlight s else Normal s) of
        Raised e s' \<Rightarrow> Raised e s'
      | Normal s1 \<Rightarrow>
          let r = range_s s1 in
          if startContainer r = endContainer r then
            (case createElement tag of
               Inl e \<Rightarrow> Raised e s1
             | Inr el \<Rightarrow>
                 let s2 = s1\<lparr>highlighter := Some (Detached el)\<rparr>;
                     s3 = s2\<lparr>highlighter := Some (Detached (decorate decorator el))\<rparr>
                 in
                 (case surroundContents (decorate decorator el) (document s3)
                         (startContainer r) (startOffset r) (endOffset r) of
                    SurroundFailed e d' r' \<Rightarrow> Raised e (s3\<lparr>document := d', range_s := r'\<rparr>)
                  | Surrounded d' r' p \<Rightarrow>
                      Normal (s3\<lparr>document := d', range_s := r', highlighter := Some (InTree p)\<rparr>)))
          else Normal s1)"

section \<open>The service: process\<close>

text \<open>The values an option can hold, and which of them count as true in a condition.\<close>

datatype jsval = JUndefined | JNull | JBool bool | JNumber int | JString string

fun truthy :: "jsval \<Rightarrow> bool" where
  "truthy JUndefined = False"
| "truthy JNull = False"
| "truthy (JBool b) = b"
| "truthy (JNumber n) = (n \<noteq> 0)"
| "truthy (JString x) = (x \<noteq> [])"

record Options =
  opt_snapToWord :: jsval
  opt_highlight :: jsval

text \<open>The window: its document, and the ranges of its selection.\<close>

record window =
  win_document :: node
  win_ranges :: "Range list"

definition getSelection :: "window \<Rightarrow> Range list" where
  "getSelection w = win_ranges w"

definition getRangeAt :: "Range list \<Rightarrow> nat \<Rightarrow> error + Range" where
  "getRangeAt rs i = (if i < length rs then Inr (rs ! i) else Inl IndexSizeError)"

text \<open>The decorator \<open>function (node) { node.style.background = 'yellow'; }\<close>.\<close>

definition yellow_background :: decorator where
  "yellow_background = set_prop ''style.background'' ''yellow''"

text \<open>\<open>process\<close> returns the Selection, or throws; what is left of a throw is the
  document.\<close>

datatype process_result = Returned selection | Threw error node

definition process :: "Options \<Rightarrow> window \<Rightarrow> process_result" where
  "process options w =
     (case getRangeAt (getSelection w) 0 of
        Inl e \<Rightarrow> Threw e (win_document w)
      | Inr rng \<Rightarrow>
          let selection = Selection (win_document w) rng in
          (case and_then
                  (if truthy (opt_snapToWord options) then snapToWord selection
                   else Normal selection)
                  (\<lambda>s1. if truthy (opt_highlight options)
                        then highlight ''span'' yellow_background s1
                        else Normal s1) of
             Raised e s \<Rightarrow> Threw e (document s)
           | Normal s2 \<Rightarrow> Returned s2))"

section \<open>States of a Selection\<close>

text \<open>A range that \<open>highlight\<close> can wrap: it is valid, its two boundary points lie in one
  node, and that node is not a text node without a parent.\<close>

definition same_node_range :: "selection \<Rightarrow> bool" where
  "same_node_range s =
     (valid_range (document s) (range_s s) \<and>
      startContainer (range_s s) = endContainer (range_s s) \<and>
      \<not> (startContainer (range_s s) = [] \<and> is_Text (document s)))"

text \<open>The state \<open>highlight\<close> leaves behind, and which \<open>snapToWord\<close> and a further
  \<open>highlight\<close> keep up: the wrapper is an element in the tree, both boundary points lie in
  its parent, and the wrapper is one of the children the range spans.\<close>

definition wrapped :: "selection \<Rightarrow> bool" where
  "wrapped s =
     (case highlighter s of
        Some (InTree p) \<Rightarrow>
          p \<noteq> [] \<and>
          startContainer (range_s s) = butlast p \<and> endContainer (range_s s) = butlast p \<and>
          startOffset (range_s s) \<le> last p \<and> last p < endOffset (range_s s) \<and>
          (case node_at (document s) (butlast p) of
             Some (Element t a cs) \<Rightarrow> endOffset (range_s s) \<le> length cs \<and> \<not> is_Text (cs ! last p)
           | _ \<Rightarrow> False)
      | _ \<Rightarrow> False)"

text \<open>The wrapper element a Selection refers to, if any.\<close>

definition wrapper_of :: "selection \<Rightarrow> node option" where
  "wrapper_of s =
     (case highlighter s of
        None \<Rightarrow> None
      | Some (Detached el) \<Rightarrow> Some el
      | Some (InTree p) \<Rightarrow> node_at (document s) p)"

section \<open>Scenarios\<close>

text \<open>A paragraph holding the one text node \<open>hello world\<close>, with the word \<open>world\<close>
  selected; the state after highlighting it with a yellow \<open>span\<close>; and the state after
  removing the highlight again.\<close>

definition hello_doc :: node where
  "hello_doc = Element ''p'' [] [Text ''hello world'']"

definition world_range :: Range where
  "world_range = \<lparr>startContainer = [0], startOffset = 6, endContainer = [0], endOffset = 11\<rparr>"

definition world_highlighted :: selection where
  "world_highlighted =
     \<lparr>document = Element ''p'' []
        [Text ''hello '',
         Element ''span'' [(''style.background'', ''yellow'')] [Text ''world''],
         Text []],
      range_s = \<lparr>startContainer = [], startOffset = 1, endContainer = [], endOffset = 2\<rparr>,
      highlighter = Some (InTree [1])\<rparr>"

definition world_unwrapped :: selection where
  "world_unwrapped =
     \<lparr>document = Element ''p'' [] [Text ''hello '', Text ''world'', Text []],
      range_s = \<lparr>startContainer = [], startOffset = 1, endContainer = [], endOffset = 2\<rparr>,
      highlighter = None\<rparr>"

text \<open>A paragraph whose text is interrupted by an inline element, with a selection that
  starts in the first text node and ends in the last.\<close>

definition cross_doc :: node where
  "cross_doc =
     Element ''p'' [] [Text ''hello '', Element ''b'' [] [Text ''big''], Text '' world'']"

definition cross_range :: Range where
  "cross_range = \<lparr>startContainer = [0], startOffset = 2, endContainer = [2], endOffset = 3\<rparr>"

text \<open>A text node that is in no document and has no parent, with its first word
  selected.\<close>

definition lone_text :: node where
  "lone_text = Text ''hello world''"

definition hello_range :: Range where
  "hello_range = \<lparr>startContainer = [], startOffset = 0, endContainer = [], endOffset = 5\<rparr>"

text \<open>The highlighted word after a second \<open>highlight\<close>, with the tag \<open>b\<close> and a decorator
  that sets nothing.\<close>

definition world_rehighlighted :: selection where
  "world_rehighlighted =
     \<lparr>document = Element ''p'' [] [Text ''hello '', Element ''b'' [] [Text ''world''], Text []],
      range_s = \<lparr>startContainer = [], startOffset = 1, endContainer = [], endOffset = 2\<rparr>,
      highlighter = Some (InTree [1])\<rparr>"

text \<open>What is left of highlighting the first word of the parentless text node.\<close>

definition lone_failed :: selection where
  "lone_failed =
     \<lparr>document = Text '' world'',
      range_s = \<lparr>startContainer = [], startOffset = 0, endContainer = [], endOffset = 0\<rparr>,
      highlighter = Some (Detached (Element ''span'' [(''style.background'', ''yellow'')] []))\<rparr>"

text \<open>The window in which the letters \<open>llo\<close> of \<open>hello world\<close> are selected, and the
  Selection that \<open>process\<close> returns for it when both options are set.\<close>

definition llo_window :: window where
  "llo_window =
     \<lparr>win_document = hello_doc,
      win_ranges = [\<lparr>startContainer = [0], startOffset = 2, endContainer = [0], endOffset = 5\<rparr>]\<rparr>"

definition hello_processed :: selection where
  "hello_processed =
     \<lparr>document = Element ''p'' []
        [Text [],
         Element ''span'' [(''style.background'', ''yellow'')] [Text ''hello''],
         Text '' world''],
      range_s = \<lparr>startContainer = [], startOffset = 1, endContainer = [], endOffset = 2\<rparr>,
      highlighter = Some (InTree [1])\<rparr>"

section \<open>The word-snapping algorithm as the specification words it\<close>

text \<open>The specification describes \<open>snapToWord\<close> on the text of a text node: the start walks
  backward over the positions that hold no space, as long as the position is greater than
  zero; the end walks forward over the characters that are no space, as long as the
  position is below the length of the text.\<close>

definition spec_walk_back :: "string \<Rightarrow> nat \<Rightarrow> nat" where
  "spec_walk_back t so = so - length (takeWhile (\<lambda>i. charAt t i \<noteq> '' '') (rev [1..<Suc so]))"

definition spec_walk_forward :: "string \<Rightarrow> nat \<Rightarrow> nat" where
  "spec_walk_forward t eo = eo + length (takeWhile (\<lambda>c. c \<noteq> CHR '' '') (drop eo t))"

definition spec_snapToWord :: "string \<Rightarrow> nat \<Rightarrow> string \<Rightarrow> nat \<Rightarrow> nat \<times> nat" where
  "spec_snapToWord t1 so t2 eo =
     (let stop = spec_walk_back t1 so
      in (if stop \<noteq> 0 \<and> stop \<noteq> so then stop + 1 else stop, spec_walk_forward t2 eo))"

section \<open>Properties of snapToWord\<close>

lemma walk_back_go:
  "charAt t s \<noteq> '' '' \<Longrightarrow> 0 < s \<Longrightarrow> walk_back t s = walk_back t (s - 1)"
  by (subst walk_back.simps) simp

lemma walk_back_halt: "charAt t s = '' '' \<or> s = 0 \<Longrightarrow> walk_back t s = s"
  by (subst walk_back.simps) auto

lemma walk_back_le: "walk_back t s \<le> s"
proof (induction t s rule: walk_back.induct)
  case (1 t start)
  show ?case
  proof (cases "charAt t start \<noteq> '' '' \<and> 0 < start")
    case True
    with 1 have "walk_back t (start - 1) \<le> start - 1" by simp
    with True show ?thesis by (simp add: walk_back_go)
  next
    case False
    then show ?thesis by (simp add: walk_back_halt)
  qed
qed

lemma walk_back_stop: "walk_back t s = 0 \<or> charAt t (walk_back t s) = '' ''"
proof (induction t s rule: walk_back.induct)
  case (1 t start)
  show ?case
  proof (cases "charAt t start \<noteq> '' '' \<and> 0 < start")
    case True
    with 1 show ?thesis by (simp add: walk_back_go)
  next
    case False
    then show ?thesis by (auto simp: walk_back_halt)
  qed
qed

lemma walk_forward_go:
  "charAt t e \<noteq> '' '' \<Longrightarrow> js_less e len \<Longrightarrow> walk_forward t len e = walk_forward t len (e + 1)"
  by (subst walk_forward.simps) simp

lemma walk_forward_halt:
  "charAt t e = '' '' \<or> \<not> js_less e len \<Longrightarrow> walk_forward t len e = e"
  by (subst walk_forward.simps) auto

lemma walk_forward_stop:
  "charAt t (walk_forward t len e) = '' '' \<or> \<not> js_less (walk_forward t len e) len"
proof (induction t len e rule: walk_forward.induct)
  case (1 t len e)
  show ?case
  proof (cases "charAt t e \<noteq> '' '' \<and> js_less e len")
    case True
    with 1 show ?thesis by (simp add: walk_forward_go)
  next
    case False
    then show ?thesis by (auto simp: walk_forward_halt)
  qed
qed

lemma walk_forward_ge: "e \<le> walk_forward t len e"
proof (induction t len e rule: walk_forward.induct)
  case (1 t len e)
  show ?case
  proof (cases "charAt t e \<noteq> '' '' \<and> js_less e len")
    case True
    with 1 have "e + 1 \<le> walk_forward t len (e + 1)" by simp
    with True show ?thesis by (simp add: walk_forward_go)
  next
    case False
    then show ?thesis by (auto simp: walk_forward_halt)
  qed
qed

lemma walk_forward_bound:
  "walk_forward t len e \<le> max e (case len of None \<Rightarrow> 0 | Some n \<Rightarrow> n)"
proof (induction t len e rule: walk_forward.induct)
  case (1 t len e)
  show ?case
  proof (cases "charAt t e \<noteq> '' '' \<and> js_less e len")
    case True
    with 1 have "walk_forward t len (e + 1) \<le> max (e + 1) (case len of None \<Rightarrow> 0 | Some n \<Rightarrow> n)"
      by simp
    with True show ?thesis
      by (auto simp: walk_forward_go js_less_def split: option.splits)
  next
    case False
    then show ?thesis by (auto simp: walk_forward_halt)
  qed
qed

lemma bp_after_mono:
  "bp_after pa oa pb ob \<Longrightarrow> oa \<le> oa' \<Longrightarrow> ob' \<le> ob \<Longrightarrow> bp_after pa oa' pb ob'"
  by (induction pa oa pb ob rule: bp_after.induct) (auto split: if_splits)

lemma walk_back_spec: "walk_back t so = spec_walk_back t so"
proof (induction so)
  case 0
  show ?case by (simp add: walk_back_halt spec_walk_back_def)
next
  case (Suc n)
  have len: "length (takeWhile (\<lambda>i. charAt t i \<noteq> '' '') (rev [1..<Suc n])) \<le> n"
  proof -
    have "length (takeWhile (\<lambda>i. charAt t i \<noteq> '' '') (rev [1..<Suc n]))
        \<le> length (rev [1..<Suc n])"
      by (rule length_takeWhile_le)
    also have "\<dots> = n" by simp
    finally show ?thesis .
  qed
  have rv: "rev [1..<Suc (Suc n)] = Suc n # rev [1..<Suc n]" by simp
  show ?case
  proof (cases "charAt t (Suc n) \<noteq> '' ''")
    case True
    then have "walk_back t (Suc n) = walk_back t n" by (simp add: walk_back_go)
    also have "\<dots> = spec_walk_back t n" by (rule Suc.IH)
    also have "\<dots> = spec_walk_back t (Suc n)"
      using True len unfolding spec_walk_back_def rv by simp
    finally show ?thesis .
  next
    case False
    then show ?thesis unfolding spec_walk_back_def rv by (simp add: walk_back_halt)
  qed
qed

lemma walk_forward_spec: "walk_forward t (Some (length t)) eo = spec_walk_forward t eo"
proof (induction t "Some (length t)" eo rule: walk_forward.induct)
  case (1 t e)
  show ?case
  proof (cases "charAt t e \<noteq> '' '' \<and> js_less e (Some (length t))")
    case True
    then have lt: "e < length t" and ne: "t ! e \<noteq> CHR '' ''"
      by (auto simp: js_less_def charAt_def)
    from True have "walk_forward t (Some (length t)) e = walk_forward t (Some (length t)) (e + 1)"
      by (simp add: walk_forward_go)
    also have "\<dots> = spec_walk_forward t (e + 1)" using 1 True by simp
    also have "\<dots> = spec_walk_forward t e"
      using lt ne by (simp add: spec_walk_forward_def Cons_nth_drop_Suc [symmetric])
    finally show ?thesis .
  next
    case False
    then have "walk_forward t (Some (length t)) e = e" by (auto simp: walk_forward_halt)
    moreover have "spec_walk_forward t e = e"
    proof (cases "e < length t")
      case True
      with False have "t ! e = CHR '' ''" by (auto simp: js_less_def charAt_def)
      with True show ?thesis
        by (simp add: spec_walk_forward_def Cons_nth_drop_Suc [symmetric])
    next
      case False
      then show ?thesis by (simp add: spec_walk_forward_def)
    qed
    ultimately show ?thesis by simp
  qed
qed

lemma snapToWord_valid:
  assumes v: "valid_range (document s) (range_s s)"
    and n1: "node_at (document s) (startContainer (range_s s)) = Some n1"
    and n2: "node_at (document s) (endContainer (range_s s)) = Some n2"
  shows "snapToWord s =
    Normal (s\<lparr>range_s := (range_s s)
      \<lparr>startOffset :=
         (let w = walk_back (textContent n1) (startOffset (range_s s))
          in if w \<noteq> 0 \<and> w \<noteq> startOffset (range_s s) then w + 1 else w),
       endOffset := walk_forward (textContent n2) (length_prop n2) (endOffset (range_s s))\<rparr>\<rparr>)"
proof -
  define r where "r = range_s s"
  define w where "w = walk_back (textContent n1) (startOffset r)"
  define st where "st = (if w \<noteq> 0 \<and> w \<noteq> startOffset r then w + 1 else w)"
  define fin where "fin = walk_forward (textContent n2) (length_prop n2) (endOffset r)"
  have wle: "w \<le> startOffset r" unfolding w_def by (rule walk_back_le)
  then have stle: "st \<le> startOffset r" unfolding st_def by auto
  have finge: "endOffset r \<le> fin" unfolding fin_def by (rule walk_forward_ge)
  from v n1 n2 have so: "startOffset r \<le> node_length n1" and eo: "endOffset r \<le> node_length n2"
    and ord: "\<not> bp_after (startContainer r) (startOffset r) (endContainer r) (endOffset r)"
    by (simp_all add: valid_range_def valid_bp_def r_def)
  have finle: "fin \<le> node_length n2"
    using walk_forward_bound [of "textContent n2" "length_prop n2" "endOffset r"] eo
    unfolding fin_def by (cases n2) auto
  have o1: "\<not> bp_after (startContainer r) st (endContainer r) (endOffset r)"
    using ord stle bp_after_mono by blast
  have o2: "\<not> bp_after (startContainer r) st (endContainer r) fin"
    using o1 finge bp_after_mono by blast
  have s1: "setStart (document s) r (startContainer r) st = Inr (r\<lparr>startOffset := st\<rparr>)"
    using n1 so stle o1 by (simp add: setStart_def r_def)
  have s2: "setEnd (document s) (r\<lparr>startOffset := st\<rparr>) (endContainer r) fin
      = Inr (r\<lparr>startOffset := st, endOffset := fin\<rparr>)"
    using n2 finle o2 by (simp add: setEnd_def r_def)
  show ?thesis
    using n1 n2 s1 s2 unfolding snapToWord_def Let_def r_def st_def w_def fin_def
    by (simp split del: if_split)
qed

lemma walk_back_skipped: "walk_back t s < i \<Longrightarrow> i \<le> s \<Longrightarrow> charAt t i \<noteq> '' ''"
proof (induction s)
  case 0
  then show ?case by simp
next
  case (Suc n)
  show ?case
  proof (cases "charAt t (Suc n) \<noteq> '' ''")
    case True
    then have eq: "walk_back t (Suc n) = walk_back t n" by (simp add: walk_back_go)
    show ?thesis
    proof (cases "i = Suc n")
      case True
      with \<open>charAt t (Suc n) \<noteq> '' ''\<close> show ?thesis by simp
    next
      case False
      with Suc.prems eq have "walk_back t n < i" "i \<le> n" by simp_all
      then show ?thesis by (rule Suc.IH)
    qed
  next
    case False
    then have "walk_back t (Suc n) = Suc n" by (simp add: walk_back_halt)
    with Suc.prems show ?thesis by simp
  qed
qed

lemma walk_back_zero:
  "(\<And>i. 0 < i \<Longrightarrow> i \<le> s \<Longrightarrow> charAt t i \<noteq> '' '') \<Longrightarrow> walk_back t s = 0"
proof (induction s)
  case 0
  show ?case by (simp add: walk_back_halt)
next
  case (Suc n)
  have "charAt t (Suc n) \<noteq> '' ''" by (rule Suc.prems) simp_all
  then have "walk_back t (Suc n) = walk_back t n" by (simp add: walk_back_go)
  also have "\<dots> = 0" by (rule Suc.IH) (simp add: Suc.prems)
  finally show ?case .
qed

lemma snap_start_idem:
  fixes t :: string and so :: nat
  defines "w \<equiv> walk_back t so"
  defines "st \<equiv> (if w \<noteq> 0 \<and> w \<noteq> so then w + 1 else w)"
  shows "(let w' = walk_back t st in if w' \<noteq> 0 \<and> w' \<noteq> st then w' + 1 else w') = st"
proof -
  consider (zero) "w = 0" | (same) "w \<noteq> 0" "w = so" | (inner) "w \<noteq> 0" "w \<noteq> so" by blast
  then show ?thesis
  proof cases
    case zero
    then show ?thesis by (simp add: st_def walk_back_halt)
  next
    case same
    then have "st = so" by (simp add: st_def)
    with same show ?thesis by (simp add: w_def [symmetric])
  next
    case inner
    then have st: "st = Suc w" by (simp add: st_def)
    have "w \<le> so" unfolding w_def by (rule walk_back_le)
    with inner have lt: "w < so" by simp
    have sp: "charAt t w = '' ''" using walk_back_stop [of t so] inner by (simp add: w_def)
    have "charAt t (Suc w) \<noteq> '' ''"
      by (rule walk_back_skipped [of t so]) (use lt in \<open>simp_all add: w_def [symmetric]\<close>)
    then have "walk_back t (Suc w) = walk_back t w" by (simp add: walk_back_go)
    also have "\<dots> = w" using sp by (simp add: walk_back_halt)
    finally show ?thesis using inner by (simp add: st)
  qed
qed

lemma walk_forward_idem: "walk_forward t len (walk_forward t len e) = walk_forward t len e"
  using walk_forward_stop [of t len e] by (auto simp: walk_forward_halt)

text \<open>Claim C4.  On a valid range whose end container is a text node, \<open>snapToWord\<close>
  completes and sets the two offsets to the ones the algorithm of the specification
  computes from the text of the start node and the text of the end node, leaving everything
  else as it was.  On the range 2--5 of the text node \<open>hello world\<close> this gives the
  offsets 0--5.\<close>

theorem snapToWord_implements_spec:
  assumes v: "valid_range (document s) (range_s s)"
    and n1: "node_at (document s) (startContainer (range_s s)) = Some n1"
    and n2: "node_at (document s) (endContainer (range_s s)) = Some (Text t2)"
  shows "snapToWord s =
    Normal (s\<lparr>range_s := (range_s s)
      \<lparr>startOffset :=
         fst (spec_snapToWord (textContent n1) (startOffset (range_s s)) t2 (endOffset (range_s s))),
       endOffset :=
         snd (spec_snapToWord (textContent n1) (startOffset (range_s s)) t2 (endOffset (range_s s)))\<rparr>\<rparr>)"
  using snapToWord_valid [OF v n1 n2]
  by (simp add: spec_snapToWord_def Let_def walk_back_spec walk_forward_spec)

theorem snapToWord_hello_world:
  "valid_range (Element ''p'' [] [Text ''hello world''])
     \<lparr>startContainer = [0], startOffset = 2, endContainer = [0], endOffset = 5\<rparr> \<and>
   snapToWord (Selection (Element ''p'' [] [Text ''hello world''])
     \<lparr>startContainer = [0], startOffset = 2, endContainer = [0], endOffset = 5\<rparr>) =
   Normal (Selection (Element ''p'' [] [Text ''hello world''])
     \<lparr>startContainer = [0], startOffset = 0, endContainer = [0], endOffset = 5\<rparr>)"
proof -
  let ?d = "Element ''p'' [] [Text ''hello world'']"
  let ?r = "\<lparr>startContainer = [0], startOffset = 2, endContainer = [0], endOffset = 5\<rparr>"
  have v: "valid_range (document (Selection ?d ?r)) (range_s (Selection ?d ?r))"
    by (simp add: Selection_def valid_range_def valid_bp_def)
  have n1: "node_at (document (Selection ?d ?r)) (startContainer (range_s (Selection ?d ?r)))
      = Some (Text ''hello world'')"
    and n2: "node_at (document (Selection ?d ?r)) (endContainer (range_s (Selection ?d ?r)))
      = Some (Text ''hello world'')"
    by (simp_all add: Selection_def)
  have e: "spec_snapToWord ''hello world'' 2 ''hello world'' 5 = (0, 5)"
    by code_simp
  show ?thesis
    using v snapToWord_implements_spec [OF v n1 n2] e by (simp add: Selection_def)
qed

text \<open>Claim C6.  On every valid range, and so on every range whose offsets already lie at
  word boundaries, \<open>snapToWord\<close> completes, and applying it to its own result completes
  with that same result: the offsets after the second call are those after the first.\<close>

theorem snapToWord_idempotent:
  assumes v: "valid_range (document s) (range_s s)"
  shows "\<exists>s1. snapToWord s = Normal s1 \<and> snapToWord s1 = Normal s1"
proof -
  define r where "r = range_s s"
  from v obtain n1 n2 where n1: "node_at (document s) (startContainer r) = Some n1"
    and n2: "node_at (document s) (endContainer r) = Some n2"
    by (auto simp: valid_range_def valid_bp_def r_def split: option.splits)
  define w where "w = walk_back (textContent n1) (startOffset r)"
  define st where "st = (if w \<noteq> 0 \<and> w \<noteq> startOffset r then w + 1 else w)"
  define fin where "fin = walk_forward (textContent n2) (length_prop n2) (endOffset r)"
  define s1 where "s1 = s\<lparr>range_s := r\<lparr>startOffset := st, endOffset := fin\<rparr>\<rparr>"
  have first: "snapToWord s = Normal s1"
    using snapToWord_valid [OF v n1 [unfolded r_def] n2 [unfolded r_def]]
    by (simp add: s1_def st_def w_def fin_def r_def Let_def)
  have wle: "w \<le> startOffset r" unfolding w_def by (rule walk_back_le)
  then have stle: "st \<le> startOffset r" unfolding st_def by auto
  have finge: "endOffset r \<le> fin" unfolding fin_def by (rule walk_forward_ge)
  from v n1 n2 have so: "startOffset r \<le> node_length n1" and eo: "endOffset r \<le> node_length n2"
    and ord: "\<not> bp_after (startContainer r) (startOffset r) (endContainer r) (endOffset r)"
    by (simp_all add: valid_range_def valid_bp_def r_def)
  have finle: "fin \<le> node_length n2"
    using walk_forward_bound [of "textContent n2" "length_prop n2" "endOffset r"] eo
    unfolding fin_def by (cases n2) auto
  have o2: "\<not> bp_after (startContainer r) st (endContainer r) fin"
    using ord stle finge bp_after_mono by blast
  have v1: "valid_range (document s1) (range_s s1)"
    using n1 n2 so stle finle o2 by (simp add: valid_range_def valid_bp_def s1_def)
  have m1: "node_at (document s1) (startContainer (range_s s1)) = Some n1"
    and m2: "node_at (document s1) (endContainer (range_s s1)) = Some n2"
    using n1 n2 by (simp_all add: s1_def)
  have a: "(let w' = walk_back (textContent n1) st in if w' \<noteq> 0 \<and> w' \<noteq> st then w' + 1 else w') = st"
    unfolding st_def w_def by (rule snap_start_idem)
  have b: "walk_forward (textContent n2) (length_prop n2) fin = fin"
    unfolding fin_def by (rule walk_forward_idem)
  have "snapToWord s1 = Normal s1"
    using snapToWord_valid [OF v1 m1 m2] a b by (simp add: s1_def)
  with first show ?thesis by blast
qed

theorem snapToWord_idempotent_world:
  "valid_range (Element ''p'' [] [Text ''hello world''])
     \<lparr>startContainer = [0], startOffset = 6, endContainer = [0], endOffset = 11\<rparr> \<and>
   snapToWord (Selection (Element ''p'' [] [Text ''hello world''])
     \<lparr>startContainer = [0], startOffset = 6, endContainer = [0], endOffset = 11\<rparr>) =
   Normal (Selection (Element ''p'' [] [Text ''hello world''])
     \<lparr>startContainer = [0], startOffset = 6, endContainer = [0], endOffset = 11\<rparr>) \<and>
   snapToWord (Selection (Element ''p'' [] [Text ''hello  world''])
     \<lparr>startContainer = [0], startOffset = 9, endContainer = [0], endOffset = 10\<rparr>) =
   Normal (Selection (Element ''p'' [] [Text ''hello  world''])
     \<lparr>startContainer = [0], startOffset = 7, endContainer = [0], endOffset = 12\<rparr>) \<and>
   snapToWord (Selection (Element ''p'' [] [Text ''hello  world''])
     \<lparr>startContainer = [0], startOffset = 7, endContainer = [0], endOffset = 12\<rparr>) =
   Normal (Selection (Element ''p'' [] [Text ''hello  world''])
     \<lparr>startContainer = [0], startOffset = 7, endContainer = [0], endOffset = 12\<rparr>)"
proof -
  let ?d = "Element ''p'' [] [Text ''hello world'']"
  let ?r = "\<lparr>startContainer = [0], startOffset = 6, endContainer = [0], endOffset = 11\<rparr>"
  let ?d' = "Element ''p'' [] [Text ''hello  world'']"
  let ?r' = "\<lparr>startContainer = [0], startOffset = 9, endContainer = [0], endOffset = 10\<rparr>"
  let ?r'' = "\<lparr>startContainer = [0], startOffset = 7, endContainer = [0], endOffset = 12\<rparr>"
  have v: "valid_range (document (Selection ?d ?r)) (range_s (Selection ?d ?r))"
    and v': "valid_range (document (Selection ?d' ?r')) (range_s (Selection ?d' ?r'))"
    by (simp_all add: Selection_def valid_range_def valid_bp_def)
  have e: "snapToWord (Selection ?d ?r) = Normal (Selection ?d ?r)"
    and e': "snapToWord (Selection ?d' ?r') = Normal (Selection ?d' ?r'')"
    by code_simp+
  from snapToWord_idempotent [OF v] e
  have 1: "snapToWord (Selection ?d ?r) = Normal (Selection ?d ?r)" by simp
  from snapToWord_idempotent [OF v'] e'
  have 2: "snapToWord (Selection ?d' ?r'') = Normal (Selection ?d' ?r'')" by auto
  from v 1 e' 2 show ?thesis by (simp add: Selection_def)
qed

text \<open>Claim C9.  When the text of the start node begins with a space that is followed by a
  word, and the start offset of a valid range lies at a character of that word, the backward
  walk of \<open>snapToWord\<close> stops at offset 0, where the space is, and the start of the range
  is set to 0: the leading space is inside the snapped range.\<close>

theorem snapToWord_leading_space:
  assumes v: "valid_range (document s) (range_s s)"
    and n1: "node_at (document s) (startContainer (range_s s)) = Some n1"
    and tc: "textContent n1 = CHR '' '' # word @ rest"
    and word: "CHR '' '' \<notin> set word"
    and pos: "0 < startOffset (range_s s)" "startOffset (range_s s) \<le> length word"
  shows "\<exists>s'. snapToWord s = Normal s' \<and>
           walk_back (textContent n1) (startOffset (range_s s)) = 0 \<and>
           charAt (textContent n1) 0 = '' '' \<and>
           startContainer (range_s s') = startContainer (range_s s) \<and>
           startOffset (range_s s') = 0"
proof -
  from v obtain n2 where n2: "node_at (document s) (endContainer (range_s s)) = Some n2"
    by (auto simp: valid_range_def valid_bp_def split: option.splits)
  have ns: "charAt (textContent n1) i \<noteq> '' ''" if "0 < i" "i \<le> startOffset (range_s s)" for i
  proof -
    from that pos have "i - 1 < length word" by simp
    then have "word ! (i - 1) \<in> set word" by simp
    with word have "word ! (i - 1) \<noteq> CHR '' ''" by metis
    moreover from that pos have "(CHR '' '' # word @ rest) ! i = word ! (i - 1)"
      by (cases i) (simp_all add: nth_append)
    moreover from that pos have "i < length (CHR '' '' # word @ rest)" by simp
    ultimately show ?thesis by (simp add: charAt_def tc)
  qed
  have z: "walk_back (textContent n1) (startOffset (range_s s)) = 0"
    by (rule walk_back_zero) (rule ns)
  have c0: "charAt (textContent n1) 0 = '' ''" by (simp add: charAt_def tc)
  show ?thesis
    using snapToWord_valid [OF v n1 n2] z c0 by (simp add: Let_def)
qed

theorem snapToWord_leading_space_example:
  "valid_range (Text '' ab cd'')
     \<lparr>startContainer = [], startOffset = 2, endContainer = [], endOffset = 3\<rparr> \<and>
   walk_back '' ab cd'' 2 = 0 \<and>
   snapToWord (Selection (Text '' ab cd'')
     \<lparr>startContainer = [], startOffset = 2, endContainer = [], endOffset = 3\<rparr>) =
   Normal (Selection (Text '' ab cd'')
     \<lparr>startContainer = [], startOffset = 0, endContainer = [], endOffset = 3\<rparr>)"
proof -
  let ?d = "Text '' ab cd''"
  let ?r = "\<lparr>startContainer = [], startOffset = 2, endContainer = [], endOffset = 3\<rparr>"
  let ?s = "Selection ?d ?r"
  have v: "valid_range (document ?s) (range_s ?s)"
    by (simp add: Selection_def valid_range_def valid_bp_def)
  have n1: "node_at (document ?s) (startContainer (range_s ?s)) = Some ?d"
    by (simp add: Selection_def)
  have tc: "textContent ?d = CHR '' '' # ''ab'' @ '' cd''" by simp
  have w: "CHR '' '' \<notin> set ''ab''" by simp
  have p: "0 < startOffset (range_s ?s)" "startOffset (range_s ?s) \<le> length ''ab''"
    by (simp_all add: Selection_def)
  have e: "snapToWord ?s = Normal (Selection ?d
      \<lparr>startContainer = [], startOffset = 0, endContainer = [], endOffset = 3\<rparr>)"
    by code_simp
  from snapToWord_leading_space [OF v n1 tc w p]
  have "walk_back '' ab cd'' 2 = 0" by (auto simp: Selection_def)
  with v e show ?thesis by (simp add: Selection_def)
qed

section \<open>Properties of highlight and removeHighlight\<close>

lemma range_text_same:
  "node_at d q = Some n \<Longrightarrow> range_text d q so q eo = range_text n [] so [] eo"
proof (induction q arbitrary: d)
  case Nil
  then show ?case by simp
next
  case (Cons i q)
  then show ?case by (cases d) (simp_all split: if_splits)
qed

lemma modify_at_id: "node_at d q = Some n \<Longrightarrow> modify_at q (\<lambda>_. n) d = d"
  by (induction d q rule: node_at.induct) (simp_all split: if_splits)

lemma bp_after_same: "bp_after c so c eo = (eo < so)"
  by (induction c) simp_all

lemma sum_list_update_add:
  fixes f :: "'a \<Rightarrow> nat"
  shows "i < length cs \<Longrightarrow>
    sum_list (map f (cs[i := x])) + f (cs ! i) = sum_list (map f cs) + f x"
proof (induction cs arbitrary: i)
  case Nil
  then show ?case by simp
next
  case (Cons c cs)
  then show ?case by (cases i) (simp_all add: add.assoc)
qed

lemma count_elements_modify_at:
  "node_at d q = Some n \<Longrightarrow>
     count_elements (modify_at q f d) + count_elements n = count_elements d + count_elements (f n)"
proof (induction d q rule: node_at.induct)
  case (1 n)
  then show ?case by simp
next
  case (2 d i p)
  then show ?case by simp
next
  case (3 t a cs i p)
  then have i: "i < length cs" and n: "node_at (cs ! i) p = Some n"
    by (simp_all split: if_splits)
  from 3 i n have IH: "count_elements (modify_at p f (cs ! i)) + count_elements n
      = count_elements (cs ! i) + count_elements (f n)"
    by simp
  have "sum_list (map count_elements (cs[i := modify_at p f (cs ! i)])) + count_elements (cs ! i)
      = sum_list (map count_elements cs) + count_elements (modify_at p f (cs ! i))"
    using i by (rule sum_list_update_add)
  with IH i show ?case by simp
qed

lemma slice_wrapper:
  "so \<le> length pre \<Longrightarrow> length pre < eo \<Longrightarrow>
     take (eo - so) (drop so (pre @ h # post)) = drop so pre @ h # take (eo - Suc (length pre)) post"
  by (simp add: take_Cons' Suc_diff_le diff_diff_eq)

lemma slice_unwrapped:
  "so \<le> length pre \<Longrightarrow> length pre < eo \<Longrightarrow>
     take (eo + length hs - Suc so) (drop so (pre @ hs @ post))
       = drop so pre @ hs @ take (eo - Suc (length pre)) post"
  by simp

lemma split_three: "so \<le> eo \<Longrightarrow> take so cs @ take (eo - so) (drop so cs) @ drop eo cs = cs"
proof -
  assume "so \<le> eo"
  then have "drop eo cs = drop (eo - so) (drop so cs)" by simp
  then show ?thesis by (metis append_take_drop_id)
qed

lemma move_out_range:
  "snd (move_out q k c (d, \<lparr>startContainer = q, startOffset = so, endContainer = q, endOffset = eo\<rparr>))
     = \<lparr>startContainer = q, startOffset = (if k < so then Suc so else so),
        endContainer = q, endOffset = (if k < eo then Suc eo else eo)\<rparr>"
  by (simp add: move_out_def range_map_def bp_remove_def bp_insert_def)

lemma unwrap_closed:
  assumes "node_at d q = Some (Element t a (pre @ Element t' a' hs # post))"
  shows "unwrap q (length pre)
           (d, \<lparr>startContainer = q, startOffset = so, endContainer = q, endOffset = eo\<rparr>) =
         (length pre + length hs,
          modify_at q (\<lambda>_. Element t a (pre @ hs @ Element t' a' [] # post)) d,
          \<lparr>startContainer = q, startOffset = (if length pre < so then so + length hs else so),
           endContainer = q, endOffset = (if length pre < eo then eo + length hs else eo)\<rparr>)"
  using assms
proof (induction hs arbitrary: pre d so eo)
  case Nil
  then have "firstChild d (q @ [length pre]) = None"
    by (simp add: firstChild_def node_at_append nth_append)
  then show ?case
    using Nil by (subst unwrap.simps) (simp add: modify_at_id)
next
  case (Cons c hs)
  let ?r = "\<lparr>startContainer = q, startOffset = so, endContainer = q, endOffset = eo\<rparr>"
  let ?d' = "modify_at q (\<lambda>_. Element t a ((pre @ [c]) @ Element t' a' hs # post)) d"
  let ?r' = "\<lparr>startContainer = q, startOffset = (if length pre < so then Suc so else so),
        endContainer = q, endOffset = (if length pre < eo then Suc eo else eo)\<rparr>"
  have fc: "firstChild d (q @ [length pre]) = Some c"
    using Cons.prems by (simp add: firstChild_def node_at_append nth_append)
  have mo: "move_out q (length pre) c (d, ?r) = (?d', ?r')"
    using move_out_document [OF Cons.prems, of ?r] move_out_range [of q "length pre" c d so eo]
    by (simp add: prod_eq_iff)
  have P': "node_at ?d' q = Some (Element t a ((pre @ [c]) @ Element t' a' hs # post))"
    by (rule node_at_modify_at_same [OF Cons.prems])
  have "unwrap q (length pre) (d, ?r) = unwrap q (Suc (length pre)) (?d', ?r')"
    using fc mo by (subst unwrap.simps) simp
  also have "\<dots> = unwrap q (length (pre @ [c])) (?d', ?r')" by simp
  also have "\<dots> = (length (pre @ [c]) + length hs,
          modify_at q (\<lambda>_. Element t a ((pre @ [c]) @ hs @ Element t' a' [] # post)) ?d',
          \<lparr>startContainer = q,
           startOffset = (if length (pre @ [c]) < (if length pre < so then Suc so else so)
                          then (if length pre < so then Suc so else so) + length hs
                          else (if length pre < so then Suc so else so)),
           endContainer = q,
           endOffset = (if length (pre @ [c]) < (if length pre < eo then Suc eo else eo)
                          then (if length pre < eo then Suc eo else eo) + length hs
                          else (if length pre < eo then Suc eo else eo))\<rparr>)"
    by (rule Cons.IH [OF P'])
  finally show ?case by (simp add: modify_at_twice)
qed

lemma removeHighlight_in_tree:
  assumes hl: "highlighter s = Some (InTree (q @ [length pre]))"
    and P: "node_at (document s) q = Some (Element t a (pre @ Element t' a' hs # post))"
    and r: "range_s s = \<lparr>startContainer = q, startOffset = so, endContainer = q, endOffset = eo\<rparr>"
    and so: "so \<le> length pre" and eo: "length pre < eo"
  shows "removeHighlight s =
    Normal (s\<lparr>document := modify_at q (\<lambda>_. Element t a (pre @ hs @ post)) (document s),
             range_s := \<lparr>startContainer = q, startOffset = so, endContainer = q,
                         endOffset = eo + length hs - 1\<rparr>,
             highlighter := None\<rparr>)"
proof -
  have h: "node_at (document s) (q @ [length pre]) = Some (Element t' a' hs)"
    using P by (simp add: node_at_append nth_append)
  have u: "unwrap q (length pre) (document s, range_s s) =
         (length pre + length hs,
          modify_at q (\<lambda>_. Element t a (pre @ hs @ Element t' a' [] # post)) (document s),
          \<lparr>startContainer = q, startOffset = so, endContainer = q, endOffset = eo + length hs\<rparr>)"
    using unwrap_closed [OF P, of so eo] so eo by (simp add: r)
  have d: "remove_child q (length pre + length hs)
        (modify_at q (\<lambda>_. Element t a (pre @ hs @ Element t' a' [] # post)) (document s))
      = modify_at q (\<lambda>_. Element t a (pre @ hs @ post)) (document s)"
    by (simp add: remove_child_def modify_at_twice)
  have rr: "range_map (bp_remove q (length pre + length hs))
        \<lparr>startContainer = q, startOffset = so, endContainer = q, endOffset = eo + length hs\<rparr>
      = \<lparr>startContainer = q, startOffset = so, endContainer = q, endOffset = eo + length hs - 1\<rparr>"
    using so eo by (simp add: range_map_def bp_remove_def)
  show ?thesis
    using hl h u d rr by (simp add: removeHighlight_def)
qed

lemma wrappedD:
  assumes "wrapped s"
  obtains q pre t a t' a' hs post so eo where
    "highlighter s = Some (InTree (q @ [length pre]))"
    "node_at (document s) q = Some (Element t a (pre @ Element t' a' hs # post))"
    "range_s s = \<lparr>startContainer = q, startOffset = so, endContainer = q, endOffset = eo\<rparr>"
    "so \<le> length pre" "length pre < eo" "eo \<le> Suc (length pre + length post)"
proof -
  from assms obtain p where hl: "highlighter s = Some (InTree p)" and p: "p \<noteq> []"
    and sc: "startContainer (range_s s) = butlast p" and ec: "endContainer (range_s s) = butlast p"
    and so: "startOffset (range_s s) \<le> last p" and eo: "last p < endOffset (range_s s)"
    and nd: "case node_at (document s) (butlast p) of
             Some (Element t a cs) \<Rightarrow> endOffset (range_s s) \<le> length cs \<and> \<not> is_Text (cs ! last p)
           | _ \<Rightarrow> False"
    by (auto simp: wrapped_def split: option.splits href.splits)
  from nd obtain t a cs where P: "node_at (document s) (butlast p) = Some (Element t a cs)"
    and len: "endOffset (range_s s) \<le> length cs" and el: "\<not> is_Text (cs ! last p)"
    by (auto split: option.splits node.splits)
  from el obtain t' a' hs where h: "cs ! last p = Element t' a' hs"
    by (cases "cs ! last p") auto
  from eo len have k: "last p < length cs" by simp
  then have cs: "cs = take (last p) cs @ Element t' a' hs # drop (Suc (last p)) cs"
    using id_take_nth_drop [of "last p" cs] h by simp
  have lp: "length (take (last p) cs) = last p" using k by simp
  have pp: "p = butlast p @ [length (take (last p) cs)]" using p lp by simp
  have r: "range_s s = \<lparr>startContainer = butlast p, startOffset = startOffset (range_s s),
      endContainer = butlast p, endOffset = endOffset (range_s s)\<rparr>"
    using sc ec by (cases "range_s s") simp
  show thesis
  proof (rule that [of "butlast p" "take (last p) cs" t a t' a' hs "drop (Suc (last p)) cs"
        "startOffset (range_s s)" "endOffset (range_s s)"])
    show "highlighter s = Some (InTree (butlast p @ [length (take (last p) cs)]))"
      using hl pp by simp
    show "node_at (document s) (butlast p) =
        Some (Element t a (take (last p) cs @ Element t' a' hs # drop (Suc (last p)) cs))"
      using P cs by simp
    show "range_s s = \<lparr>startContainer = butlast p, startOffset = startOffset (range_s s),
      endContainer = butlast p, endOffset = endOffset (range_s s)\<rparr>" by (rule r)
    show "startOffset (range_s s) \<le> length (take (last p) cs)" using so lp by simp
    show "length (take (last p) cs) < endOffset (range_s s)" using eo lp by simp
    show "endOffset (range_s s) \<le> Suc (length (take (last p) cs) + length (drop (Suc (last p)) cs))"
      using len k by simp
  qed
qed

lemma wrappedI:
  assumes "highlighter s = Some (InTree (q @ [length pre]))"
    "node_at (document s) q = Some (Element t a (pre @ Element t' a' hs # post))"
    "range_s s = \<lparr>startContainer = q, startOffset = so, endContainer = q, endOffset = eo\<rparr>"
    "so \<le> length pre" "length pre < eo" "eo \<le> Suc (length pre + length post)"
  shows "wrapped s"
  using assms by (simp add: wrapped_def nth_append)

lemma removeHighlight_wrapped:
  assumes "wrapped s"
  shows "\<exists>s'. removeHighlight s = Normal s' \<and> highlighter s' = None \<and>
           valid_range (document s') (range_s s') \<and>
           startContainer (range_s s') = endContainer (range_s s') \<and>
           \<not> (startContainer (range_s s') = [] \<and> is_Text (document s')) \<and>
           getText s' = getText s \<and>
           Suc (count_elements (document s')) = count_elements (document s)"
proof -
  from assms obtain q pre t a t' a' hs post so eo where
    hl: "highlighter s = Some (InTree (q @ [length pre]))"
    and P: "node_at (document s) q = Some (Element t a (pre @ Element t' a' hs # post))"
    and r: "range_s s = \<lparr>startContainer = q, startOffset = so, endContainer = q, endOffset = eo\<rparr>"
    and so: "so \<le> length pre" and eo: "length pre < eo"
    and len: "eo \<le> Suc (length pre + length post)"
    by (rule wrappedD)
  let ?d' = "modify_at q (\<lambda>_. Element t a (pre @ hs @ post)) (document s)"
  let ?r' = "\<lparr>startContainer = q, startOffset = so, endContainer = q,
                         endOffset = eo + length hs - 1\<rparr>"
  let ?s' = "s\<lparr>document := ?d', range_s := ?r', highlighter := None\<rparr>"
  have rm: "removeHighlight s = Normal ?s'"
    by (rule removeHighlight_in_tree [OF hl P r so eo])
  have P': "node_at ?d' q = Some (Element t a (pre @ hs @ post))"
    by (rule node_at_modify_at_same [OF P])
  have a1: "eo + length hs - 1 \<le> length (pre @ hs @ post)" using len by simp
  have a2: "\<not> eo + length hs - 1 < so" using so eo by arith
  have v: "valid_range ?d' ?r'"
    using P' so a1 a2 by (simp add: valid_range_def valid_bp_def bp_after_same)
  have root: "\<not> (q = [] \<and> is_Text ?d')"
    using P' by (cases q) auto
  have "getText ?s' = concat (map textContent
      (take (eo + length hs - Suc so) (drop so (pre @ hs @ post))))"
    using P' by (simp add: getText_def toString_def range_text_same)
  also have "\<dots> = concat (map textContent
      (take (eo - so) (drop so (pre @ Element t' a' hs # post))))"
    using so eo by (simp only: slice_wrapper slice_unwrapped) simp
  also have "\<dots> = getText s"
    using P r by (simp add: getText_def toString_def range_text_same)
  finally have gt: "getText ?s' = getText s" .
  have "count_elements ?d' + count_elements (Element t a (pre @ Element t' a' hs # post))
      = count_elements (document s) + count_elements (Element t a (pre @ hs @ post))"
    by (rule count_elements_modify_at [OF P])
  then have cnt: "Suc (count_elements ?d') = count_elements (document s)" by simp
  show ?thesis
    using rm v root gt cnt by simp
qed

lemma surround_element:
  assumes P: "node_at d c = Some (Element t a cs)"
  shows "surroundContents el d c so eo =
    Surrounded
      (modify_at c (\<lambda>_. Element t a
         (take so cs @ set_children (take (eo - so) (drop so cs)) el # drop eo cs)) d)
      (select_node c so) (c @ [so])"
  using P by (simp add: surroundContents_def)

lemma surround_text:
  assumes P: "node_at d q = Some (Element t a (pre @ Text dat # post))"
  shows "surroundContents el d (q @ [length pre]) so eo =
    Surrounded
      (modify_at q (\<lambda>_. Element t a
         (pre @ [Text (take so dat), set_children (extracted_text dat so eo) el,
                 Text (drop eo dat)] @ post)) d)
      (select_node q (Suc (length pre))) (q @ [Suc (length pre)])"
proof -
  have c: "node_at d (q @ [length pre]) = Some (Text dat)"
    using P by (simp add: node_at_append nth_append)
  have m: "modify_at q
        (\<lambda>n. set_children
           (take (length pre) (children n) @
            [Text (take so dat), set_children (extracted_text dat so eo) el,
             Text (drop eo dat)] @
            drop (Suc (length pre)) (children n)) n) d
      = modify_at q (\<lambda>_. Element t a
         (pre @ [Text (take so dat), set_children (extracted_text dat so eo) el,
                 Text (drop eo dat)] @ post)) d"
    by (rule modify_at_cong_node [OF P]) simp
  show ?thesis
    using c m by (simp add: surroundContents_def Let_def)
qed

lemma highlight_fresh_call:
  assumes "highlighter s = None"
    and "startContainer (range_s s) = endContainer (range_s s)"
    and "valid_element_name tag"
  shows "highlight tag dec s =
    (case surroundContents (Element tag (dec []) []) (document s)
            (startContainer (range_s s)) (startOffset (range_s s)) (endOffset (range_s s)) of
       SurroundFailed e d' r' \<Rightarrow>
         Raised e (s\<lparr>document := d', range_s := r',
                     highlighter := Some (Detached (Element tag (dec []) []))\<rparr>)
     | Surrounded d' r' p \<Rightarrow>
         Normal (s\<lparr>document := d', range_s := r', highlighter := Some (InTree p)\<rparr>))"
  using assms by (simp add: highlight_def createElement_def Let_def split: surround_result.splits)

lemma highlight_fresh:
  assumes fresh: "highlighter s = None"
    and v: "valid_range (document s) (range_s s)"
    and same: "startContainer (range_s s) = endContainer (range_s s)"
    and root: "\<not> (startContainer (range_s s) = [] \<and> is_Text (document s))"
    and tag: "valid_element_name tag"
  shows "\<exists>s' kids. highlight tag dec s = Normal s' \<and> wrapped s' \<and>
           wrapper_of s' = Some (Element tag (dec []) kids) \<and>
           concat (map textContent kids) = getText s \<and>
           getText s' = getText s \<and>
           count_elements (document s') = Suc (count_elements (document s))"
proof -
  define c where "c = startContainer (range_s s)"
  define so where "so = startOffset (range_s s)"
  define eo where "eo = endOffset (range_s s)"
  have r: "range_s s = \<lparr>startContainer = c, startOffset = so, endContainer = c, endOffset = eo\<rparr>"
    using same by (cases "range_s s") (simp add: c_def so_def eo_def)
  from v r obtain n where n: "node_at (document s) c = Some n"
    and so: "so \<le> node_length n" and eo: "eo \<le> node_length n" and ord: "so \<le> eo"
    by (auto simp: valid_range_def valid_bp_def bp_after_same split: option.splits)
  let ?el = "Element tag (dec []) []"
  have call: "highlight tag dec s =
    (case surroundContents ?el (document s) c so eo of
       SurroundFailed e d' r' \<Rightarrow>
         Raised e (s\<lparr>document := d', range_s := r', highlighter := Some (Detached ?el)\<rparr>)
     | Surrounded d' r' p \<Rightarrow>
         Normal (s\<lparr>document := d', range_s := r', highlighter := Some (InTree p)\<rparr>))"
    using highlight_fresh_call [OF fresh same tag, of dec] by (simp add: c_def so_def eo_def)
  show ?thesis
  proof (cases n)
    case (Element t a cs)
    let ?kids = "take (eo - so) (drop so cs)"
    let ?W = "Element tag (dec []) ?kids"
    let ?P' = "Element t a (take so cs @ ?W # drop eo cs)"
    let ?d' = "modify_at c (\<lambda>_. ?P') (document s)"
    let ?s' = "s\<lparr>document := ?d', range_s := select_node c so, highlighter := Some (InTree (c @ [so]))\<rparr>"
    have P: "node_at (document s) c = Some (Element t a cs)" using n Element by simp
    have len: "so \<le> length cs" "eo \<le> length cs" using so eo Element by simp_all
    have h: "highlight tag dec s = Normal ?s'"
      using call surround_element [OF P, of ?el so eo] by simp
    have P': "node_at ?d' c = Some ?P'" by (rule node_at_modify_at_same [OF P])
    have lt: "length (take so cs) = so" using len by simp
    have w: "wrapped ?s'"
    proof (rule wrappedI [of _ c "take so cs" t a tag "dec []" ?kids "drop eo cs" so "Suc so"])
      show "highlighter ?s' = Some (InTree (c @ [length (take so cs)]))" using lt by simp
      show "node_at (document ?s') c = Some ?P'" using P' by simp
      show "range_s ?s' = \<lparr>startContainer = c, startOffset = so, endContainer = c, endOffset = Suc so\<rparr>"
        by (simp add: select_node_def)
      show "so \<le> length (take so cs)" "length (take so cs) < Suc so"
        "Suc so \<le> Suc (length (take so cs) + length (drop eo cs))"
        using lt by simp_all
    qed
    have wo: "wrapper_of ?s' = Some ?W"
      using P' lt by (simp add: wrapper_of_def node_at_append nth_append)
    have t0: "getText s = concat (map textContent ?kids)"
      using P r by (simp add: getText_def toString_def range_text_same)
    have "take (Suc so - so) (drop so (take so cs @ ?W # drop eo cs)) = [?W]"
      using lt by simp
    then have t1: "getText ?s' = concat (map textContent ?kids)"
      using P' by (simp add: getText_def toString_def select_node_def range_text_same)
    have "count_elements ?d' + count_elements (Element t a cs)
        = count_elements (document s) + count_elements ?P'"
      by (rule count_elements_modify_at [OF P])
    moreover have "count_elements ?P' = Suc (count_elements (Element t a cs))"
    proof -
      have "sum_list (map count_elements (take so cs @ ?kids @ drop eo cs))
          = sum_list (map count_elements cs)"
        using ord by (simp only: split_three)
      then show ?thesis by simp
    qed
    ultimately have cnt: "count_elements ?d' = Suc (count_elements (document s))" by simp
    show ?thesis
      using h w wo t0 t1 cnt by auto
  next
    case (Text dat)
    with n root have "c \<noteq> []" by (auto simp: c_def)
    then obtain q k where c: "c = q @ [k]" by (metis append_butlast_last_id)
    from n Text c obtain t a pcs where P0: "node_at (document s) q = Some (Element t a pcs)"
      and k: "k < length pcs" and pk: "pcs ! k = Text dat"
      by (auto simp: node_at_snoc)
    define pre where "pre = take k pcs"
    define post where "post = drop (Suc k) pcs"
    have pcs: "pcs = pre @ Text dat # post"
      using id_take_nth_drop [OF k] pk by (simp add: pre_def post_def)
    have lp: "length pre = k" using k by (simp add: pre_def)
    have P: "node_at (document s) q = Some (Element t a (pre @ Text dat # post))"
      using P0 pcs by simp
    let ?sub = "take (eo - so) (drop so dat)"
    let ?W = "Element tag (dec []) (extracted_text dat so eo)"
    have sub: "concat (map textContent (extracted_text dat so eo)) = ?sub"
      by (simp add: extracted_text_def)
    let ?P' = "Element t a (pre @ [Text (take so dat), ?W, Text (drop eo dat)] @ post)"
    let ?d' = "modify_at q (\<lambda>_. ?P') (document s)"
    let ?s' = "s\<lparr>document := ?d', range_s := select_node q (Suc k),
                 highlighter := Some (InTree (q @ [Suc k]))\<rparr>"
    have h: "highlight tag dec s = Normal ?s'"
      using call surround_text [OF P, of ?el so eo] by (simp add: c lp)
    have P': "node_at ?d' q = Some ?P'" by (rule node_at_modify_at_same [OF P])
    have P'': "node_at ?d' q =
        Some (Element t a ((pre @ [Text (take so dat)]) @ ?W # (Text (drop eo dat) # post)))"
      using P' by simp
    have w: "wrapped ?s'"
    proof (rule wrappedI [of _ q "pre @ [Text (take so dat)]" t a tag "dec []"
          "extracted_text dat so eo" "Text (drop eo dat) # post" "Suc k" "Suc (Suc k)"])
      show "highlighter ?s' = Some (InTree (q @ [length (pre @ [Text (take so dat)])]))"
        using lp by simp
      show "node_at (document ?s') q =
        Some (Element t a ((pre @ [Text (take so dat)]) @ ?W # (Text (drop eo dat) # post)))"
        using P'' by simp
      show "range_s ?s' = \<lparr>startContainer = q, startOffset = Suc k, endContainer = q,
          endOffset = Suc (Suc k)\<rparr>"
        by (simp add: select_node_def)
      show "Suc k \<le> length (pre @ [Text (take so dat)])"
        "length (pre @ [Text (take so dat)]) < Suc (Suc k)"
        "Suc (Suc k) \<le> Suc (length (pre @ [Text (take so dat)]) + length (Text (drop eo dat) # post))"
        using lp by simp_all
    qed
    have wo: "wrapper_of ?s' = Some ?W"
      using P' lp by (simp add: wrapper_of_def node_at_append nth_append)
    have t0: "getText s = ?sub"
      using n Text r by (simp add: getText_def toString_def range_text_same)
    have "take (Suc (Suc k) - Suc k)
        (drop (Suc k) (pre @ [Text (take so dat), ?W, Text (drop eo dat)] @ post)) = [?W]"
      using lp by simp
    then have t1: "getText ?s' = ?sub"
      using P' sub by (simp add: getText_def toString_def select_node_def range_text_same)
    have "count_elements ?d' + count_elements (Element t a (pre @ Text dat # post))
        = count_elements (document s) + count_elements ?P'"
      by (rule count_elements_modify_at [OF P])
    then have cnt: "count_elements ?d' = Suc (count_elements (document s))"
      by (simp add: extracted_text_def)
    show ?thesis
      using h w wo t0 t1 sub cnt by auto
  qed
qed

lemma wrapped_same_node: "wrapped s \<Longrightarrow> same_node_range s"
proof -
  assume "wrapped s"
  then obtain q pre t a t' a' hs post so eo where
    P: "node_at (document s) q = Some (Element t a (pre @ Element t' a' hs # post))"
    and r: "range_s s = \<lparr>startContainer = q, startOffset = so, endContainer = q, endOffset = eo\<rparr>"
    and so: "so \<le> length pre" and eo: "length pre < eo"
    and len: "eo \<le> Suc (length pre + length post)"
    by (rule wrappedD)
  have "\<not> (q = [] \<and> is_Text (document s))" using P by (cases q) auto
  then show ?thesis
    using P r so eo len by (simp add: same_node_range_def valid_range_def valid_bp_def bp_after_same)
qed

lemma wrapped_highlighted: "wrapped s \<Longrightarrow> highlighter s \<noteq> None"
  by (auto simp: wrapped_def split: option.splits)

lemma highlight_after_remove:
  assumes "highlighter s \<noteq> None" and "removeHighlight s = Normal s1" and "highlighter s1 = None"
  shows "highlight tag dec s = highlight tag dec s1"
  using assms by (simp add: highlight_def)

lemma highlight_wrapped:
  assumes w: "wrapped s" and tag: "valid_element_name tag"
  shows "\<exists>s' kids. highlight tag dec s = Normal s' \<and> wrapped s' \<and>
           wrapper_of s' = Some (Element tag (dec []) kids) \<and>
           concat (map textContent kids) = getText s \<and>
           getText s' = getText s \<and>
           count_elements (document s') = count_elements (document s)"
proof -
  from removeHighlight_wrapped [OF w] obtain s1 where
    rm: "removeHighlight s = Normal s1" and fresh: "highlighter s1 = None"
    and v: "valid_range (document s1) (range_s s1)"
    and same: "startContainer (range_s s1) = endContainer (range_s s1)"
    and root: "\<not> (startContainer (range_s s1) = [] \<and> is_Text (document s1))"
    and gt: "getText s1 = getText s"
    and cnt: "Suc (count_elements (document s1)) = count_elements (document s)"
    by blast
  from highlight_fresh [OF fresh v same root tag, of dec] obtain s' kids where
    h: "highlight tag dec s1 = Normal s'" and w': "wrapped s'"
    and wo: "wrapper_of s' = Some (Element tag (dec []) kids)"
    and k: "concat (map textContent kids) = getText s1"
    and gt': "getText s' = getText s1"
    and cnt': "count_elements (document s') = Suc (count_elements (document s1))"
    by blast
  have "highlight tag dec s = Normal s'"
    using highlight_after_remove [OF wrapped_highlighted [OF w] rm fresh] h by simp
  then show ?thesis
    using w' wo k gt gt' cnt cnt' by auto
qed

lemma highlight_distinct_containers:
  assumes "highlighter s = None" and "startContainer (range_s s) \<noteq> endContainer (range_s s)"
  shows "highlight tag dec s = Normal s"
  using assms by (simp add: highlight_def)

lemma removeHighlight_fresh: "highlighter s = None \<Longrightarrow> removeHighlight s = Normal s"
  by (simp add: removeHighlight_def)

lemma snapToWord_wrapped:
  assumes w: "wrapped s"
  shows "\<exists>s'. snapToWord s = Normal s' \<and> wrapped s' \<and> document s' = document s \<and>
               highlighter s' = highlighter s"
proof -
  from w obtain q pre t a t' a' hs post so eo where
    hl: "highlighter s = Some (InTree (q @ [length pre]))"
    and P: "node_at (document s) q = Some (Element t a (pre @ Element t' a' hs # post))"
    and r: "range_s s = \<lparr>startContainer = q, startOffset = so, endContainer = q, endOffset = eo\<rparr>"
    and so: "so \<le> length pre" and eo: "length pre < eo"
    and len: "eo \<le> Suc (length pre + length post)"
    by (rule wrappedD)
  let ?n = "Element t a (pre @ Element t' a' hs # post)"
  define st where "st = (let w = walk_back (textContent ?n) so
          in if w \<noteq> 0 \<and> w \<noteq> so then w + 1 else w)"
  have "walk_back (textContent ?n) so \<le> so" by (rule walk_back_le)
  then have stle: "st \<le> so" by (auto simp: st_def Let_def)
  have v: "valid_range (document s) (range_s s)"
    using wrapped_same_node [OF w] by (simp add: same_node_range_def)
  have n1: "node_at (document s) (startContainer (range_s s)) = Some ?n"
    and n2: "node_at (document s) (endContainer (range_s s)) = Some ?n"
    using P r by simp_all
  have fin: "walk_forward (textContent ?n) (length_prop ?n) eo = eo"
    by (simp add: walk_forward_halt js_less_def)
  let ?s' = "s\<lparr>range_s := \<lparr>startContainer = q, startOffset = st, endContainer = q, endOffset = eo\<rparr>\<rparr>"
  have "snapToWord s = Normal ?s'"
    using snapToWord_valid [OF v n1 n2] fin r by (simp add: st_def)
  moreover have "wrapped ?s'"
    by (rule wrappedI [of _ q pre t a t' a' hs post st eo]) (use hl P stle so eo len in simp_all)
  ultimately show ?thesis by simp
qed

lemma snapToWord_total:
  assumes v: "valid_range (document s) (range_s s)"
  shows "\<exists>s1. snapToWord s = Normal s1 \<and> valid_range (document s1) (range_s s1) \<and>
           document s1 = document s \<and> highlighter s1 = highlighter s \<and>
           startContainer (range_s s1) = startContainer (range_s s) \<and>
           endContainer (range_s s1) = endContainer (range_s s)"
proof -
  define r where "r = range_s s"
  from v obtain n1 n2 where n1: "node_at (document s) (startContainer r) = Some n1"
    and n2: "node_at (document s) (endContainer r) = Some n2"
    by (auto simp: valid_range_def valid_bp_def r_def split: option.splits)
  define w where "w = walk_back (textContent n1) (startOffset r)"
  define st where "st = (if w \<noteq> 0 \<and> w \<noteq> startOffset r then w + 1 else w)"
  define fin where "fin = walk_forward (textContent n2) (length_prop n2) (endOffset r)"
  define s1 where "s1 = s\<lparr>range_s := r\<lparr>startOffset := st, endOffset := fin\<rparr>\<rparr>"
  have first: "snapToWord s = Normal s1"
    using snapToWord_valid [OF v n1 [unfolded r_def] n2 [unfolded r_def]]
    by (simp add: s1_def st_def w_def fin_def r_def Let_def)
  have wle: "w \<le> startOffset r" unfolding w_def by (rule walk_back_le)
  then have stle: "st \<le> startOffset r" unfolding st_def by auto
  have finge: "endOffset r \<le> fin" unfolding fin_def by (rule walk_forward_ge)
  from v n1 n2 have so: "startOffset r \<le> node_length n1" and eo: "endOffset r \<le> node_length n2"
    and ord: "\<not> bp_after (startContainer r) (startOffset r) (endContainer r) (endOffset r)"
    by (simp_all add: valid_range_def valid_bp_def r_def)
  have finle: "fin \<le> node_length n2"
    using walk_forward_bound [of "textContent n2" "length_prop n2" "endOffset r"] eo
    unfolding fin_def by (cases n2) auto
  have o2: "\<not> bp_after (startContainer r) st (endContainer r) fin"
    using ord stle finge bp_after_mono by blast
  have v1: "valid_range (document s1) (range_s s1)"
    using n1 n2 so stle finle o2 by (simp add: valid_range_def valid_bp_def s1_def)
  show ?thesis
    using first v1 by (simp add: s1_def r_def)
qed

lemma surround_failed_count:
  "surroundContents el d c so eo = SurroundFailed e d' r' \<Longrightarrow>
     count_elements d' = count_elements d"
  by (cases d) (auto simp: surroundContents_def Let_def split: option.splits node.splits if_splits)

lemma yellow_background_sets:
  "map_of (yellow_background a) ''style.background'' = Some ''yellow''"
  by (simp add: yellow_background_def set_prop_def)

section \<open>The claims about highlight and removeHighlight\<close>

text \<open>Claim C3.  On a Selection that is not highlighted and whose range has its start and
  its end in two distinct nodes, \<open>highlight\<close> completes without an error and returns the
  state it was given: no wrapper exists, the document is untouched, and \<open>isHighlighted\<close>
  is still false.\<close>

theorem highlight_cross_node_noop:
  assumes "\<not> isHighlighted s"
    and "startContainer (range_s s) \<noteq> endContainer (range_s s)"
  shows "\<exists>s'. highlight tag dec s = Normal s' \<and> s' = s \<and> wrapper_of s' = None \<and>
              \<not> isHighlighted s'"
  using assms highlight_distinct_containers [of s tag dec]
  by (simp add: isHighlighted_def wrapper_of_def)

theorem highlight_cross_node_example:
  "\<not> isHighlighted (Selection cross_doc cross_range) \<and>
   startContainer cross_range \<noteq> endContainer cross_range \<and>
   highlight ''span'' yellow_background (Selection cross_doc cross_range)
     = Normal (Selection cross_doc cross_range) \<and>
   wrapper_of (Selection cross_doc cross_range) = None"
proof -
  let ?s = "Selection cross_doc cross_range"
  have a: "\<not> isHighlighted ?s" by (simp add: isHighlighted_def Selection_def)
  have b: "startContainer (range_s ?s) \<noteq> endContainer (range_s ?s)"
    by (simp add: Selection_def cross_range_def)
  from highlight_cross_node_noop [OF a b, of "''span''" yellow_background]
  have "highlight ''span'' yellow_background ?s = Normal ?s \<and> wrapper_of ?s = None" by simp
  with a b show ?thesis by (simp add: Selection_def)
qed

text \<open>Claim C2.  Let the range of a Selection be valid with both boundary points in one
  node (not a text node without a parent), and let the Selection be unhighlighted or in
  the state a \<open>highlight\<close> leaves behind.  Then, for a tag that is a name, \<open>highlight\<close>
  completes, the following \<open>removeHighlight\<close> completes, and \<open>getText\<close> returns afterwards
  the string it returned before the two calls.\<close>

theorem highlight_removeHighlight_roundtrip:
  assumes tag: "valid_element_name tag"
    and sn: "same_node_range s"
    and st: "highlighter s = None \<or> wrapped s"
  shows "\<exists>s1 s2. highlight tag dec s = Normal s1 \<and> removeHighlight s1 = Normal s2 \<and>
                 getText s2 = getText s"
proof -
  have "\<exists>s1. highlight tag dec s = Normal s1 \<and> wrapped s1 \<and> getText s1 = getText s"
  proof (cases "highlighter s = None")
    case True
    from sn have "valid_range (document s) (range_s s)"
      "startContainer (range_s s) = endContainer (range_s s)"
      "\<not> (startContainer (range_s s) = [] \<and> is_Text (document s))"
      by (simp_all add: same_node_range_def)
    from highlight_fresh [OF True this tag, of dec] show ?thesis by blast
  next
    case False
    with st have "wrapped s" by simp
    from highlight_wrapped [OF this tag, of dec] show ?thesis by blast
  qed
  then obtain s1 where h: "highlight tag dec s = Normal s1" and w: "wrapped s1"
    and g1: "getText s1 = getText s" by blast
  from removeHighlight_wrapped [OF w] obtain s2 where
    "removeHighlight s1 = Normal s2" "getText s2 = getText s1" by blast
  with h g1 show ?thesis by simp
qed

theorem highlight_removeHighlight_world:
  "valid_element_name ''span'' \<and>
   same_node_range (Selection hello_doc world_range) \<and>
   getText (Selection hello_doc world_range) = ''world'' \<and>
   highlight ''span'' yellow_background (Selection hello_doc world_range)
     = Normal world_highlighted \<and>
   getText world_highlighted = ''world'' \<and>
   removeHighlight world_highlighted = Normal world_unwrapped \<and>
   getText world_unwrapped = ''world'' \<and>
   wrapped world_highlighted \<and>
   highlight ''b'' (\<lambda>a. a) world_highlighted = Normal world_rehighlighted \<and>
   removeHighlight world_rehighlighted = Normal world_unwrapped"
proof -
  let ?s = "Selection hello_doc world_range"
  have t: "valid_element_name ''span''" and t': "valid_element_name ''b''"
    by (simp_all add: name_start_char_def name_char_def)
  have sn: "same_node_range ?s" by code_simp
  have f: "highlighter ?s = None \<or> wrapped ?s" by (simp add: Selection_def)
  have h: "highlight ''span'' yellow_background ?s = Normal world_highlighted" by code_simp
  have r: "removeHighlight world_highlighted = Normal world_unwrapped" by code_simp
  have g: "getText ?s = ''world''" by code_simp
  have g1: "getText world_highlighted = ''world''" by code_simp
  from highlight_removeHighlight_roundtrip [OF t sn f, of yellow_background] h r
  have 1: "getText world_unwrapped = getText ?s" by simp
  have w: "wrapped world_highlighted" by code_simp
  have sn': "same_node_range world_highlighted" by code_simp
  have h': "highlight ''b'' (\<lambda>a. a) world_highlighted = Normal world_rehighlighted" by code_simp
  have r': "removeHighlight world_rehighlighted = Normal world_unwrapped" by code_simp
  from highlight_removeHighlight_roundtrip [OF t' sn' disjI2 [OF w], of "\<lambda>a. a"] h' r'
  have 2: "getText world_unwrapped = getText world_highlighted" by simp
  from t sn h r g g1 1 2 w h' r' show ?thesis by simp
qed

text \<open>Claim C7, as amended.  A freshly constructed Selection is not highlighted.  When its
  range is valid (and does not lie in a text node without a parent) and the tag is a name,
  \<open>highlight\<close> completes, and afterwards \<open>isHighlighted\<close> is true exactly when the start
  and the end container of the range are the same node; the following \<open>removeHighlight\<close>
  completes, and afterwards \<open>isHighlighted\<close> is false.\<close>

theorem isHighlighted_lifecycle:
  assumes tag: "valid_element_name tag"
    and v: "valid_range d r"
    and root: "\<not> (startContainer r = [] \<and> is_Text d)"
  shows "\<not> isHighlighted (Selection d r) \<and>
    (\<exists>s1 s2. highlight tag dec (Selection d r) = Normal s1 \<and>
       isHighlighted s1 = (startContainer r = endContainer r) \<and>
       removeHighlight s1 = Normal s2 \<and> \<not> isHighlighted s2)"
proof -
  let ?s = "Selection d r"
  have fresh: "highlighter ?s = None" by (simp add: Selection_def)
  have "\<exists>s1 s2. highlight tag dec ?s = Normal s1 \<and>
       isHighlighted s1 = (startContainer r = endContainer r) \<and>
       removeHighlight s1 = Normal s2 \<and> \<not> isHighlighted s2"
  proof (cases "startContainer r = endContainer r")
    case True
    have "valid_range (document ?s) (range_s ?s)"
      "startContainer (range_s ?s) = endContainer (range_s ?s)"
      "\<not> (startContainer (range_s ?s) = [] \<and> is_Text (document ?s))"
      using v True root by (simp_all add: Selection_def)
    from highlight_fresh [OF fresh this tag, of dec] obtain s1 where
      h: "highlight tag dec ?s = Normal s1" and w: "wrapped s1" by blast
    from removeHighlight_wrapped [OF w] obtain s2 where
      "removeHighlight s1 = Normal s2" "highlighter s2 = None" by blast
    with h True wrapped_highlighted [OF w] show ?thesis by (auto simp: isHighlighted_def)
  next
    case False
    then have "highlight tag dec ?s = Normal ?s"
      using fresh by (simp add: highlight_distinct_containers Selection_def)
    moreover have "removeHighlight ?s = Normal ?s" using fresh by (rule removeHighlight_fresh)
    ultimately show ?thesis using False fresh by (auto simp: isHighlighted_def)
  qed
  with fresh show ?thesis by (simp add: isHighlighted_def)
qed

theorem isHighlighted_lifecycle_world:
  "valid_element_name ''span'' \<and> valid_range hello_doc world_range \<and>
   \<not> isHighlighted (Selection hello_doc world_range) \<and>
   highlight ''span'' yellow_background (Selection hello_doc world_range)
     = Normal world_highlighted \<and>
   isHighlighted world_highlighted \<and>
   removeHighlight world_highlighted = Normal world_unwrapped \<and>
   \<not> isHighlighted world_unwrapped"
proof -
  have t: "valid_element_name ''span''" by (simp add: name_start_char_def name_char_def)
  have v: "valid_range hello_doc world_range" by code_simp
  have root: "\<not> (startContainer world_range = [] \<and> is_Text hello_doc)"
    by (simp add: world_range_def)
  have same: "startContainer world_range = endContainer world_range"
    by (simp add: world_range_def)
  have h: "highlight ''span'' yellow_background (Selection hello_doc world_range)
      = Normal world_highlighted" by code_simp
  have r: "removeHighlight world_highlighted = Normal world_unwrapped" by code_simp
  from isHighlighted_lifecycle [OF t v root, of yellow_background] h r same
  have "\<not> isHighlighted (Selection hello_doc world_range) \<and> isHighlighted world_highlighted \<and>
      \<not> isHighlighted world_unwrapped"
    by auto
  with t v h r show ?thesis by simp
qed

text \<open>The claim as the specification states it fails on a range across two nodes: after
  \<open>highlight\<close> the fresh Selection is still not highlighted.\<close>

theorem isHighlighted_false_after_cross_node_highlight:
  "valid_range cross_doc cross_range \<and>
   highlight ''span'' yellow_background (Selection cross_doc cross_range)
     = Normal (Selection cross_doc cross_range) \<and>
   isHighlighted (Selection cross_doc cross_range) = False"
  by code_simp

text \<open>Claim C5, as amended.  A Selection holds at most one wrapper reference.  On an
  unhighlighted Selection with a valid range (not in a text node without a parent), two
  calls of \<open>highlight\<close> in a row complete.  When the start and the end container of the
  range are the same node, the Selection is highlighted after the first call and after the
  second, the document holds after each call exactly one element more than before the
  calls, and the wrapper the Selection refers to is the element of the second call, around
  the text that was selected.  When the containers differ, the state after the two calls is
  the state before them, with no wrapper.\<close>

theorem highlight_twice:
  assumes t1: "valid_element_name tag1" and t2: "valid_element_name tag2"
    and fresh: "highlighter s = None"
    and v: "valid_range (document s) (range_s s)"
    and root: "\<not> (startContainer (range_s s) = [] \<and> is_Text (document s))"
  shows "\<exists>s1 s2. highlight tag1 dec1 s = Normal s1 \<and> highlight tag2 dec2 s1 = Normal s2 \<and>
     (if startContainer (range_s s) = endContainer (range_s s)
      then isHighlighted s1 \<and> isHighlighted s2 \<and>
           count_elements (document s1) = Suc (count_elements (document s)) \<and>
           count_elements (document s2) = Suc (count_elements (document s)) \<and>
           (\<exists>kids. wrapper_of s2 = Some (Element tag2 (dec2 []) kids) \<and>
                   concat (map textContent kids) = getText s)
      else s2 = s \<and> \<not> isHighlighted s2 \<and> wrapper_of s2 = None)"
proof (cases "startContainer (range_s s) = endContainer (range_s s)")
  case True
  from highlight_fresh [OF fresh v True root t1, of dec1] obtain s1 where
    h1: "highlight tag1 dec1 s = Normal s1" and w1: "wrapped s1"
    and g1: "getText s1 = getText s"
    and c1: "count_elements (document s1) = Suc (count_elements (document s))"
    by blast
  from highlight_wrapped [OF w1 t2, of dec2] obtain s2 kids where
    h2: "highlight tag2 dec2 s1 = Normal s2" and w2: "wrapped s2"
    and wo: "wrapper_of s2 = Some (Element tag2 (dec2 []) kids)"
    and k: "concat (map textContent kids) = getText s1"
    and c2: "count_elements (document s2) = count_elements (document s1)"
    by blast
  have "isHighlighted s1" "isHighlighted s2"
    using wrapped_highlighted [OF w1] wrapped_highlighted [OF w2] by (simp_all add: isHighlighted_def)
  with True h1 h2 c1 c2 wo k g1 show ?thesis by auto
next
  case False
  have "highlight tag1 dec1 s = Normal s" "highlight tag2 dec2 s = Normal s"
    using fresh False by (simp_all add: highlight_distinct_containers)
  with False fresh show ?thesis by (simp add: isHighlighted_def wrapper_of_def)
qed

theorem highlight_twice_world:
  "valid_element_name ''span'' \<and> valid_element_name ''b'' \<and>
   valid_range hello_doc world_range \<and>
   highlight ''span'' yellow_background (Selection hello_doc world_range)
     = Normal world_highlighted \<and>
   highlight ''b'' (\<lambda>a. a) world_highlighted = Normal world_rehighlighted \<and>
   isHighlighted world_highlighted \<and> isHighlighted world_rehighlighted \<and>
   count_elements hello_doc = 1 \<and>
   count_elements (document world_highlighted) = 2 \<and>
   count_elements (document world_rehighlighted) = 2 \<and>
   wrapper_of world_rehighlighted = Some (Element ''b'' [] [Text ''world''])"
proof -
  let ?s = "Selection hello_doc world_range"
  have t1: "valid_element_name ''span''" and t2: "valid_element_name ''b''"
    by (simp_all add: name_start_char_def name_char_def)
  have f: "highlighter ?s = None" by (simp add: Selection_def)
  have v: "valid_range (document ?s) (range_s ?s)" by code_simp
  have v': "valid_range hello_doc world_range" by code_simp
  have root: "\<not> (startContainer (range_s ?s) = [] \<and> is_Text (document ?s))"
    by (simp add: Selection_def world_range_def)
  have same: "startContainer (range_s ?s) = endContainer (range_s ?s)"
    by (simp add: Selection_def world_range_def)
  have h1: "highlight ''span'' yellow_background ?s = Normal world_highlighted" by code_simp
  have h2: "highlight ''b'' (\<lambda>a. a) world_highlighted = Normal world_rehighlighted" by code_simp
  have c0: "count_elements hello_doc = 1" by (simp add: hello_doc_def)
  have w: "wrapper_of world_rehighlighted = Some (Element ''b'' [] [Text ''world''])"
    by (simp add: wrapper_of_def world_rehighlighted_def)
  from highlight_twice [OF t1 t2 f v root, of yellow_background "\<lambda>a. a"] h1 h2 same
  have "isHighlighted world_highlighted \<and> isHighlighted world_rehighlighted \<and>
      count_elements (document world_highlighted) = Suc (count_elements (document ?s)) \<and>
      count_elements (document world_rehighlighted) = Suc (count_elements (document ?s))"
    by auto
  with t1 t2 v' h1 h2 c0 w show ?thesis by (simp add: Selection_def)
qed

text \<open>The claim as the specification states it fails on a range across two nodes: after two
  calls of \<open>highlight\<close> no wrapper is present, where the claim has exactly one.\<close>

theorem highlight_twice_cross_node_no_wrapper:
  "valid_range cross_doc cross_range \<and>
   and_then (highlight ''span'' yellow_background (Selection cross_doc cross_range))
            (highlight ''span'' yellow_background)
     = Normal (Selection cross_doc cross_range) \<and>
   wrapper_of (Selection cross_doc cross_range) = None \<and>
   document (Selection cross_doc cross_range) = cross_doc \<and>
   count_elements cross_doc = 2"
  by code_simp

text \<open>Claim C10.  On an unhighlighted Selection whose range has both boundary points in
  one node, and for a tag that is a name, \<open>highlight\<close> hands to the surround step the new
  element with the decorator already applied to it: an element without children that is
  not in the tree.  When the surround step succeeds, \<open>highlight\<close> completes with the wrapper
  in the tree.  When the surround step fails, \<open>highlight\<close> raises that error, and the
  Selection it leaves behind is highlighted: its wrapper reference is the decorated
  element, outside the tree, and the document holds no element more than before.\<close>

theorem highlight_surround_failure:
  assumes fresh: "highlighter s = None"
    and same: "startContainer (range_s s) = endContainer (range_s s)"
    and tag: "valid_element_name tag"
  shows "case surroundContents (Element tag (dec []) []) (document s)
          (startContainer (range_s s)) (startOffset (range_s s)) (endOffset (range_s s)) of
       Surrounded d' r' p \<Rightarrow>
         highlight tag dec s =
           Normal (s\<lparr>document := d', range_s := r', highlighter := Some (InTree p)\<rparr>)
     | SurroundFailed e d' r' \<Rightarrow>
         (\<exists>s'. highlight tag dec s = Raised e s' \<and> isHighlighted s' \<and>
            highlighter s' = Some (Detached (Element tag (dec []) [])) \<and>
            wrapper_of s' = Some (Element tag (dec []) []) \<and>
            document s' = d' \<and> count_elements (document s') = count_elements (document s))"
proof (cases "surroundContents (Element tag (dec []) []) (document s)
          (startContainer (range_s s)) (startOffset (range_s s)) (endOffset (range_s s))")
  case (Surrounded d' r' p)
  with highlight_fresh_call [OF fresh same tag, of dec] show ?thesis by simp
next
  case (SurroundFailed e d' r')
  with highlight_fresh_call [OF fresh same tag, of dec] surround_failed_count [OF SurroundFailed]
  show ?thesis by (simp add: isHighlighted_def wrapper_of_def)
qed

theorem highlight_surround_failure_lone_text:
  "valid_element_name ''span'' \<and>
   surroundContents (Element ''span'' (yellow_background []) []) lone_text [] 0 5
     = SurroundFailed HierarchyRequestError (Text '' world'')
         \<lparr>startContainer = [], startOffset = 0, endContainer = [], endOffset = 0\<rparr> \<and>
   highlight ''span'' yellow_background (Selection lone_text hello_range)
     = Raised HierarchyRequestError lone_failed \<and>
   isHighlighted lone_failed \<and>
   wrapper_of lone_failed = Some (Element ''span'' [(''style.background'', ''yellow'')] []) \<and>
   count_elements (document lone_failed) = count_elements lone_text \<and>
   highlight ''span'' yellow_background (Selection hello_doc world_range)
     = Normal world_highlighted"
proof -
  let ?s = "Selection lone_text hello_range"
  let ?r = "\<lparr>startContainer = [], startOffset = 0, endContainer = [], endOffset = 0\<rparr>"
  let ?w = "Selection hello_doc world_range"
  have t: "valid_element_name ''span''" by (simp add: name_start_char_def name_char_def)
  have f: "highlighter ?s = None" by (simp add: Selection_def)
  have same: "startContainer (range_s ?s) = endContainer (range_s ?s)"
    by (simp add: Selection_def hello_range_def)
  have fail: "surroundContents (Element ''span'' (yellow_background []) []) (document ?s)
      (startContainer (range_s ?s)) (startOffset (range_s ?s)) (endOffset (range_s ?s))
      = SurroundFailed HierarchyRequestError (Text '' world'') ?r"
    by code_simp
  have fail': "surroundContents (Element ''span'' (yellow_background []) []) lone_text [] 0 5
      = SurroundFailed HierarchyRequestError (Text '' world'') ?r"
    by code_simp
  have h: "highlight ''span'' yellow_background ?s = Raised HierarchyRequestError lone_failed"
    by code_simp
  from highlight_surround_failure [OF f same t, of yellow_background] fail h
  have "isHighlighted lone_failed \<and>
      wrapper_of lone_failed = Some (Element ''span'' (yellow_background []) []) \<and>
      count_elements (document lone_failed) = count_elements (document ?s)"
    by auto
  then have 1: "isHighlighted lone_failed \<and>
      wrapper_of lone_failed = Some (Element ''span'' [(''style.background'', ''yellow'')] []) \<and>
      count_elements (document lone_failed) = count_elements lone_text"
    by (simp add: yellow_background_def set_prop_def Selection_def)
  have f': "highlighter ?w = None" by (simp add: Selection_def)
  have same': "startContainer (range_s ?w) = endContainer (range_s ?w)"
    by (simp add: Selection_def world_range_def)
  have ok: "surroundContents (Element ''span'' (yellow_background []) []) (document ?w)
      (startContainer (range_s ?w)) (startOffset (range_s ?w)) (endOffset (range_s ?w))
      = Surrounded (document world_highlighted) (range_s world_highlighted) [1]"
    by code_simp
  from highlight_surround_failure [OF f' same' t, of yellow_background] ok
  have 2: "highlight ''span'' yellow_background ?w = Normal world_highlighted"
    by (simp add: world_highlighted_def Selection_def)
  from t fail' h 1 2 show ?thesis by simp
qed

section \<open>The claims about process\<close>

text \<open>Claim C1.  Let the window's selection have a first range, valid in a document whose
  root is an element.  Then, for every options record, \<open>process\<close> returns a Selection, and
  that Selection is the result of this sequence: the Selection constructed around the first
  range; \<open>snapToWord\<close> applied to it if and only if the option \<open>snapToWord\<close> is true-ish;
  then \<open>highlight\<close> with the tag \<open>span\<close> and the yellow decorator applied if and only if
  the option \<open>highlight\<close> is true-ish.  The decorator sets the background to yellow
  whatever the element held before.\<close>

theorem process_returns:
  assumes rs: "win_ranges w = r # rs"
    and v: "valid_range (win_document w) r"
    and root: "\<not> is_Text (win_document w)"
  shows "\<exists>s1 s2.
     (if truthy (opt_snapToWord options)
      then snapToWord (Selection (win_document w) r) = Normal s1
      else s1 = Selection (win_document w) r) \<and>
     (if truthy (opt_highlight options)
      then highlight ''span'' yellow_background s1 = Normal s2
      else s2 = s1) \<and>
     process options w = Returned s2 \<and>
     (\<forall>a. map_of (yellow_background a) ''style.background'' = Some ''yellow'')"
proof -
  let ?s0 = "Selection (win_document w) r"
  have v0: "valid_range (document ?s0) (range_s ?s0)" using v by (simp add: Selection_def)
  have "\<exists>s1. (if truthy (opt_snapToWord options) then snapToWord ?s0 else Normal ?s0) = Normal s1 \<and>
     valid_range (document s1) (range_s s1) \<and> document s1 = win_document w \<and>
     highlighter s1 = None"
  proof (cases "truthy (opt_snapToWord options)")
    case True
    from snapToWord_total [OF v0] show ?thesis using True by (auto simp: Selection_def)
  next
    case False
    then show ?thesis using v0 by (simp add: Selection_def)
  qed
  then obtain s1 where
    a: "(if truthy (opt_snapToWord options) then snapToWord ?s0 else Normal ?s0) = Normal s1"
    and v1: "valid_range (document s1) (range_s s1)" and d1: "document s1 = win_document w"
    and f1: "highlighter s1 = None" by blast
  have tag: "valid_element_name ''span''"
    by (simp add: name_start_char_def name_char_def)
  have "\<exists>s2. (if truthy (opt_highlight options) then highlight ''span'' yellow_background s1
              else Normal s1) = Normal s2"
  proof (cases "truthy (opt_highlight options)")
    case True
    show ?thesis
    proof (cases "startContainer (range_s s1) = endContainer (range_s s1)")
      case same: True
      have "\<not> (startContainer (range_s s1) = [] \<and> is_Text (document s1))"
        using root d1 by simp
      from highlight_fresh [OF f1 v1 same this tag, of yellow_background] True
      show ?thesis by auto
    next
      case False
      with f1 True show ?thesis by (simp add: highlight_distinct_containers)
    qed
  next
    case False
    then show ?thesis by simp
  qed
  then obtain s2 where
    b: "(if truthy (opt_highlight options) then highlight ''span'' yellow_background s1
              else Normal s1) = Normal s2" by blast
  have p: "process options w = Returned s2"
    using rs a b by (simp add: process_def getSelection_def getRangeAt_def Let_def and_then_def)
  from a b p show ?thesis
    by (auto simp: yellow_background_sets split: if_splits)
qed

theorem process_hello:
  "win_ranges llo_window =
     [\<lparr>startContainer = [0], startOffset = 2, endContainer = [0], endOffset = 5\<rparr>] \<and>
   valid_range (win_document llo_window)
     \<lparr>startContainer = [0], startOffset = 2, endContainer = [0], endOffset = 5\<rparr> \<and>
   process \<lparr>opt_snapToWord = JBool True, opt_highlight = JBool True\<rparr> llo_window
     = Returned hello_processed \<and>
   getText hello_processed = ''hello'' \<and>
   process \<lparr>opt_snapToWord = JUndefined, opt_highlight = JUndefined\<rparr> llo_window
     = Returned (Selection hello_doc
         \<lparr>startContainer = [0], startOffset = 2, endContainer = [0], endOffset = 5\<rparr>)"
proof -
  let ?r = "\<lparr>startContainer = [0], startOffset = 2, endContainer = [0], endOffset = 5\<rparr>"
  let ?r' = "\<lparr>startContainer = [0], startOffset = 0, endContainer = [0], endOffset = 5\<rparr>"
  let ?on = "\<lparr>opt_snapToWord = JBool True, opt_highlight = JBool True\<rparr>"
  let ?off = "\<lparr>opt_snapToWord = JUndefined, opt_highlight = JUndefined\<rparr>"
  have rs: "win_ranges llo_window = ?r # []" by (simp add: llo_window_def)
  have v: "valid_range (win_document llo_window) ?r" by code_simp
  have root: "\<not> is_Text (win_document llo_window)" by (simp add: llo_window_def hello_doc_def)
  have s: "snapToWord (Selection (win_document llo_window) ?r)
      = Normal (Selection hello_doc ?r')" by code_simp
  have h: "highlight ''span'' yellow_background (Selection hello_doc ?r') = Normal hello_processed"
    by code_simp
  have g: "getText hello_processed = ''hello''" by code_simp
  from process_returns [OF rs v root, of ?on] s h
  have on: "process ?on llo_window = Returned hello_processed" by auto
  from process_returns [OF rs v root, of ?off]
  have off: "process ?off llo_window = Returned (Selection hello_doc ?r)"
    by (auto simp: llo_window_def)
  from rs v on g off show ?thesis by simp
qed

text \<open>Claim C8.  When the window's selection has no range, \<open>process\<close> throws the
  \<open>IndexSizeError\<close> of reading the first range: it returns no Selection, and the document
  it leaves behind is the document it found.\<close>

theorem process_no_range:
  assumes "win_ranges w = []"
  shows "process options w = Threw IndexSizeError (win_document w)"
  using assms by (simp add: process_def getSelection_def getRangeAt_def)

theorem process_no_range_example:
  "win_ranges \<lparr>win_document = hello_doc, win_ranges = []\<rparr> = [] \<and>
   process \<lparr>opt_snapToWord = JBool True, opt_highlight = JBool True\<rparr>
     \<lparr>win_document = hello_doc, win_ranges = []\<rparr> = Threw IndexSizeError hello_doc"
proof -
  have e: "win_ranges \<lparr>win_document = hello_doc, win_ranges = []\<rparr> = []" by simp
  from process_no_range [OF e] e show ?thesis by simp
qed

end
